theory Spec2Isabelle
  imports Main "HOL-Library.Word"
begin

unbundle bit_operations_syntax

section \<open>The Keccak-256 counter-mode generator of falcon-go\<close>

text \<open>
  The repository holds three versions of the generator
  (\<^verbatim>\<open>inner_keccak256_init\<close>, \<^verbatim>\<open>_inject\<close>, \<^verbatim>\<open>_flip\<close>, \<^verbatim>\<open>_extract\<close>):
  \<^item> \<^verbatim>\<open>src/c/keccak_prng.c\<close>: no output cache, no domain-separation byte;
  \<^item> \<^verbatim>\<open>src/c/test_prng.c\<close>, lines 151-302: with an output cache
    (\<^verbatim>\<open>out_buffer\<close>, \<^verbatim>\<open>out_buffer_pos\<close>, \<^verbatim>\<open>out_buffer_len\<close>); its functions carry the
    suffix \<open>_cached\<close> here;
  \<^item> \<^verbatim>\<open>src/unnamed/part_001\<close>, lines 1-83: no cache, a domain-separation byte
    \<^verbatim>\<open>0x1F\<close> appended by \<^verbatim>\<open>flip\<close>; its \<^verbatim>\<open>init\<close> and \<^verbatim>\<open>inject\<close> are, line for line,
    those of \<^verbatim>\<open>keccak_prng.c\<close>, and its \<^verbatim>\<open>flip\<close> carries the suffix \<open>_ds\<close> here. Its
    \<^verbatim>\<open>extract\<close> is the loop of \<^verbatim>\<open>keccak_prng.c\<close> around another hash call, and is not
    modelled a second time.

  The header \<^verbatim>\<open>inner.h\<close> (the context structure, \<^verbatim>\<open>MAX_BUFFER_SIZE\<close>,
  \<^verbatim>\<open>KECCAK256_OUTPUT\<close>) and the hash library (\<^verbatim>\<open>keccak256.h\<close>, \<^verbatim>\<open>keccak_tiny.h\<close>) are
  not among the sources. The hash is a parameter \<open>H\<close> of every function that calls it,
  the capacity \<^verbatim>\<open>MAX_BUFFER_SIZE\<close> is a parameter \<open>MAXB\<close>, and the structure is read off
  the fields the code uses.

  Conventions of the embedding:
  \<^item> a pointer argument is an \<open>option\<close>: \<open>None\<close> is the null pointer, \<open>Some v\<close> points to
    the object \<open>v\<close>; a function returns its \<^verbatim>\<open>int\<close> result together with the objects
    it may have written (the context, and for \<^verbatim>\<open>extract\<close> the caller's output array);
  \<^item> \<^verbatim>\<open>uint8_t\<close> is \<open>8 word\<close>, \<^verbatim>\<open>uint64_t\<close> is \<open>64 word\<close> (so \<^verbatim>\<open>counter++\<close> wraps);
  \<^item> \<^verbatim>\<open>size_t\<close> values are \<open>nat\<close>; the only additions of the code that could exceed
    the 64-bit range (\<^verbatim>\<open>buffer_len + len\<close>, \<^verbatim>\<open>buffer_len + 1\<close>) are written with
    \<open>size_add\<close>, the addition of 64-bit words, which wraps; every other \<^verbatim>\<open>size_t\<close>
    operation of the code is guarded (\<^verbatim>\<open>len - offset\<close> under \<^verbatim>\<open>offset < len\<close>, and so on);
  \<^item> an array is the list of its bytes; \<^verbatim>\<open>memcpy(dst + off, src, n)\<close> is \<open>memcpy\<close> below.
\<close>

type_synonym byte = "8 word"

text \<open>
  Modelled from the spec: \<^verbatim>\<open>KECCAK256_OUTPUT\<close> is defined in the missing \<^verbatim>\<open>inner.h\<close>;
  section 3 of the specification gives the derived state as a fixed 32-byte value.
\<close>

definition KECCAK256_OUTPUT :: nat where
  "KECCAK256_OUTPUT = 32"

definition size_add :: "nat \<Rightarrow> nat \<Rightarrow> nat" where
  "size_add a b = unat (of_nat a + of_nat b :: 64 word)"

text \<open>
  \<^verbatim>\<open>memcpy(dst + off, src, n)\<close>: the \<open>n\<close> first bytes of \<open>src\<close> replace the bytes
  \<open>off ..< off + n\<close> of \<open>dst\<close>. (Where \<open>off + n\<close> exceeds the array, C's behaviour is
  undefined; the list then grows, and no theorem below is about that case.)
\<close>

definition memcpy :: "byte list \<Rightarrow> nat \<Rightarrow> byte list \<Rightarrow> nat \<Rightarrow> byte list" where
  "memcpy dst off src n = take off dst @ take n src @ drop (off + n) dst"

text \<open>
  The non-zero return codes of the C functions, under the names the specification gives
  them: -1 for a null pointer, -2 for a call in the wrong phase, -3 for input beyond the
  capacity.
\<close>

definition InvalidArgumentError :: int where
  "InvalidArgumentError = - 1"

definition InvalidStateError :: int where
  "InvalidStateError = - 2"

definition OverflowError :: int where
  "OverflowError = - 3"

text \<open>
  The context \<^verbatim>\<open>inner_keccak256_prng_ctx\<close>: \<^verbatim>\<open>buffer[MAX_BUFFER_SIZE]\<close>, \<^verbatim>\<open>buffer_len\<close>,
  \<^verbatim>\<open>state[KECCAK256_OUTPUT]\<close>, \<^verbatim>\<open>counter\<close>, \<^verbatim>\<open>finalized\<close> (an \<^verbatim>\<open>int\<close> tested against 0).
  The caching version adds \<^verbatim>\<open>out_buffer\<close>, \<^verbatim>\<open>out_buffer_pos\<close> and \<^verbatim>\<open>out_buffer_len\<close>.
\<close>

record keccak256_prng_ctx =
  buffer :: "byte list"
  buffer_len :: nat
  state :: "byte list"
  counter :: "64 word"
  finalized :: int

record keccak256_prng_ctx_cached = keccak256_prng_ctx +
  out_buffer :: "byte list"
  out_buffer_pos :: nat
  out_buffer_len :: nat

subsection \<open>\<^verbatim>\<open>src/c/keccak_prng.c\<close>\<close>

definition inner_keccak256_init ::
  "nat \<Rightarrow> keccak256_prng_ctx option \<Rightarrow> int \<times> keccak256_prng_ctx option" where
  "inner_keccak256_init MAXB sc =
     (case sc of
        None \<Rightarrow> (- 1, None)
      | Some c \<Rightarrow>
          (0, Some (c\<lparr>buffer := replicate MAXB 0,
                      state := replicate KECCAK256_OUTPUT 0,
                      buffer_len := 0,
                      counter := 0,
                      finalized := 0\<rparr>)))"

definition inner_keccak256_inject ::
  "nat \<Rightarrow> keccak256_prng_ctx option \<Rightarrow> byte list option \<Rightarrow> int \<times> keccak256_prng_ctx option" where
  "inner_keccak256_inject MAXB sc inp =
     (case sc of
        None \<Rightarrow> (- 1, None)
      | Some c \<Rightarrow>
          (case inp of
             None \<Rightarrow> (- 1, Some c)
           | Some bs \<Rightarrow>
               if finalized c \<noteq> 0 then (- 2, Some c)
               else if size_add (buffer_len c) (length bs) > MAXB then (- 3, Some c)
               else (0, Some (c\<lparr>buffer := memcpy (buffer c) (buffer_len c) bs (length bs),
                                 buffer_len := size_add (buffer_len c) (length bs)\<rparr>))))"

definition inner_keccak256_flip ::
  "(byte list \<Rightarrow> byte list) \<Rightarrow> keccak256_prng_ctx option \<Rightarrow> int \<times> keccak256_prng_ctx option" where
  "inner_keccak256_flip H sc =
     (case sc of
        None \<Rightarrow> (- 1, None)
      | Some c \<Rightarrow>
          if finalized c \<noteq> 0 then (- 2, Some c)
          else (0, Some (c\<lparr>state := H (take (buffer_len c) (buffer c)),
                            finalized := 1\<rparr>)))"

text \<open>
  The counter in big-endian format:
  \<^verbatim>\<open>block[KECCAK256_OUTPUT + i] = (sc->counter >> (56 - i * 8)) & 0xFF\<close> for \<open>i = 0..7\<close>.
\<close>

definition counter_bytes :: "64 word \<Rightarrow> byte list" where
  "counter_bytes c = map (\<lambda>i. ucast (drop_bit (56 - i * 8) c AND 0xFF)) [0..<8]"

text \<open>\<^verbatim>\<open>to_copy = len - offset; if (to_copy > KECCAK256_OUTPUT) to_copy = KECCAK256_OUTPUT;\<close>\<close>

definition copy_len :: "nat \<Rightarrow> nat \<Rightarrow> nat" where
  "copy_len len offset =
     (if len - offset > KECCAK256_OUTPUT then KECCAK256_OUTPUT else len - offset)"

text \<open>The loop \<^verbatim>\<open>while (offset < len)\<close> of \<^verbatim>\<open>inner_keccak256_extract\<close>.\<close>

function extract_loop ::
  "(byte list \<Rightarrow> byte list) \<Rightarrow> keccak256_prng_ctx \<Rightarrow> byte list \<Rightarrow> nat \<Rightarrow> nat
     \<Rightarrow> keccak256_prng_ctx \<times> byte list" where
  "extract_loop H c out offset len =
     (if offset < len then
        let block = state c @ counter_bytes (counter c);
            squeeze_out = H block;
            to_copy = copy_len len offset;
            out' = memcpy out offset squeeze_out to_copy
        in extract_loop H (c\<lparr>counter := counter c + 1\<rparr>) out' (offset + to_copy) len
      else (c, out))"
  by pat_completeness auto
termination
  by (relation "measure (\<lambda>(H, c, out, offset, len). len - offset)")
     (auto simp: copy_len_def KECCAK256_OUTPUT_def)

declare extract_loop.simps [simp del]

definition inner_keccak256_extract ::
  "(byte list \<Rightarrow> byte list) \<Rightarrow> keccak256_prng_ctx option \<Rightarrow> byte list option \<Rightarrow> nat
     \<Rightarrow> int \<times> keccak256_prng_ctx option \<times> byte list option" where
  "inner_keccak256_extract H sc out len =
     (case sc of
        None \<Rightarrow> (- 1, None, out)
      | Some c \<Rightarrow>
          (case out of
             None \<Rightarrow> (- 1, Some c, None)
           | Some ob \<Rightarrow>
               if finalized c = 0 then (- 2, Some c, Some ob)
               else (case extract_loop H c ob 0 len of
                       (c', ob') \<Rightarrow> (0, Some c', Some ob'))))"

subsection \<open>\<^verbatim>\<open>src/unnamed/part_001\<close>: \<^verbatim>\<open>flip\<close> with the domain-separation byte\<close>

text \<open>
  \<^verbatim>\<open>sha3_256(out, outlen, in, inlen)\<close> of the missing \<^verbatim>\<open>keccak_tiny.h\<close> returns an \<^verbatim>\<open>int\<close>
  and fills \<open>out\<close>: the parameter \<open>sha3\<close> maps the input bytes to that pair. The
  byte is stored by \<^verbatim>\<open>sc->buffer[sc->buffer_len++] = 0x1F\<close> before the hash is called,
  and \<^verbatim>\<open>if (ret != 0) return ret\<close> leaves it stored.
\<close>

definition inner_keccak256_flip_ds ::
  "(byte list \<Rightarrow> int \<times> byte list) \<Rightarrow> nat \<Rightarrow> keccak256_prng_ctx option
     \<Rightarrow> int \<times> keccak256_prng_ctx option" where
  "inner_keccak256_flip_ds sha3 MAXB sc =
     (case sc of
        None \<Rightarrow> (- 1, None)
      | Some c \<Rightarrow>
          if finalized c \<noteq> 0 then (- 2, Some c)
          else if size_add (buffer_len c) 1 > MAXB then (- 3, Some c)
          else
            let c1 = c\<lparr>buffer := (buffer c)[buffer_len c := 0x1F],
                       buffer_len := size_add (buffer_len c) 1\<rparr>;
                (ret, digest) = sha3 (take (buffer_len c1) (buffer c1));
                c2 = c1\<lparr>state := digest\<rparr>
            in if ret \<noteq> 0 then (ret, Some c2)
               else (0, Some (c2\<lparr>finalized := 1\<rparr>)))"

subsection \<open>\<^verbatim>\<open>src/c/test_prng.c\<close>, lines 151-302: the version with an output cache\<close>

definition inner_keccak256_init_cached ::
  "nat \<Rightarrow> keccak256_prng_ctx_cached option \<Rightarrow> int \<times> keccak256_prng_ctx_cached option" where
  "inner_keccak256_init_cached MAXB sc =
     (case sc of
        None \<Rightarrow> (- 1, None)
      | Some c \<Rightarrow>
          (0, Some (c\<lparr>buffer := replicate MAXB 0,
                      state := replicate KECCAK256_OUTPUT 0,
                      buffer_len := 0,
                      counter := 0,
                      finalized := 0,
                      out_buffer_pos := 0,
                      out_buffer_len := 0\<rparr>)))"

definition inner_keccak256_inject_cached ::
  "nat \<Rightarrow> keccak256_prng_ctx_cached option \<Rightarrow> byte list option
     \<Rightarrow> int \<times> keccak256_prng_ctx_cached option" where
  "inner_keccak256_inject_cached MAXB sc inp =
     (case sc of
        None \<Rightarrow> (- 1, None)
      | Some c \<Rightarrow>
          (case inp of
             None \<Rightarrow> (- 1, Some c)
           | Some bs \<Rightarrow>
               if finalized c \<noteq> 0 then (- 2, Some c)
               else if size_add (buffer_len c) (length bs) > MAXB then (- 3, Some c)
               else (0, Some (c\<lparr>buffer := memcpy (buffer c) (buffer_len c) bs (length bs),
                                 buffer_len := size_add (buffer_len c) (length bs)\<rparr>))))"

definition inner_keccak256_flip_cached ::
  "(byte list \<Rightarrow> byte list) \<Rightarrow> keccak256_prng_ctx_cached option
     \<Rightarrow> int \<times> keccak256_prng_ctx_cached option" where
  "inner_keccak256_flip_cached H sc =
     (case sc of
        None \<Rightarrow> (- 1, None)
      | Some c \<Rightarrow>
          if finalized c \<noteq> 0 then (- 2, Some c)
          else (0, Some (c\<lparr>state := H (take (buffer_len c) (buffer c)),
                            finalized := 1,
                            out_buffer_pos := 0,
                            out_buffer_len := 0\<rparr>)))"

text \<open>\<^verbatim>\<open>to_copy = (remaining < KECCAK256_OUTPUT) ? remaining : KECCAK256_OUTPUT\<close>\<close>

definition copy_len_cached :: "nat \<Rightarrow> nat \<Rightarrow> nat" where
  "copy_len_cached len offset =
     (if len - offset < KECCAK256_OUTPUT then len - offset else KECCAK256_OUTPUT)"

text \<open>
  The loop of the caching \<^verbatim>\<open>extract\<close>: the new block is hashed into \<^verbatim>\<open>sc->out_buffer\<close>,
  and \<^verbatim>\<open>out_buffer_pos\<close> records how much of it went to the caller.
\<close>

function extract_loop_cached ::
  "(byte list \<Rightarrow> byte list) \<Rightarrow> keccak256_prng_ctx_cached \<Rightarrow> byte list \<Rightarrow> nat \<Rightarrow> nat
     \<Rightarrow> keccak256_prng_ctx_cached \<times> byte list" where
  "extract_loop_cached H c out offset len =
     (if offset < len then
        let block = state c @ counter_bytes (counter c);
            c1 = c\<lparr>out_buffer := H block,
                    out_buffer_len := KECCAK256_OUTPUT,
                    out_buffer_pos := 0\<rparr>;
            to_copy = copy_len_cached len offset;
            out' = memcpy out offset (out_buffer c1) to_copy;
            c2 = c1\<lparr>out_buffer_pos := to_copy\<rparr>
        in extract_loop_cached H (c2\<lparr>counter := counter c2 + 1\<rparr>) out' (offset + to_copy) len
      else (c, out))"
  by pat_completeness auto
termination
  by (relation "measure (\<lambda>(H, c, out, offset, len). len - offset)")
     (auto simp: copy_len_cached_def KECCAK256_OUTPUT_def)

declare extract_loop_cached.simps [simp del]

definition inner_keccak256_extract_cached ::
  "(byte list \<Rightarrow> byte list) \<Rightarrow> keccak256_prng_ctx_cached option \<Rightarrow> byte list option \<Rightarrow> nat
     \<Rightarrow> int \<times> keccak256_prng_ctx_cached option \<times> byte list option" where
  "inner_keccak256_extract_cached H sc out len =
     (case sc of
        None \<Rightarrow> (- 1, None, out)
      | Some c \<Rightarrow>
          (case out of
             None \<Rightarrow> (- 1, Some c, None)
           | Some ob \<Rightarrow>
               if finalized c = 0 then (- 2, Some c, Some ob)
               else if out_buffer_len c > out_buffer_pos c then
                 let available = out_buffer_len c - out_buffer_pos c;
                     to_copy = (if len < available then len else available);
                     ob1 = memcpy ob 0 (drop (out_buffer_pos c) (out_buffer c)) to_copy;
                     c1 = c\<lparr>out_buffer_pos := out_buffer_pos c + to_copy\<rparr>
                 in if to_copy = len then (0, Some c1, Some ob1)
                    else (case extract_loop_cached H c1 ob1 to_copy len of
                            (c', ob') \<Rightarrow> (0, Some c', Some ob'))
               else (case extract_loop_cached H c ob 0 len of
                       (c', ob') \<Rightarrow> (0, Some c', Some ob'))))"

section \<open>Drivers: the call sequences of the tests\<close>

text \<open>
  A call of \<^verbatim>\<open>extract\<close> as the tests make it: the caller passes an array of \<open>n\<close> bytes
  (here zeroed) and reads the \<open>n\<close> bytes back.
\<close>

definition extract_call ::
  "(byte list \<Rightarrow> byte list) \<Rightarrow> keccak256_prng_ctx option \<Rightarrow> nat
     \<Rightarrow> int \<times> keccak256_prng_ctx option \<times> byte list" where
  "extract_call H sc n =
     (case inner_keccak256_extract H sc (Some (replicate n 0)) n of
        (rc, sc', out) \<Rightarrow> (rc, sc', case out of None \<Rightarrow> [] | Some ob \<Rightarrow> ob))"

definition extract_call_cached ::
  "(byte list \<Rightarrow> byte list) \<Rightarrow> keccak256_prng_ctx_cached option \<Rightarrow> nat
     \<Rightarrow> int \<times> keccak256_prng_ctx_cached option \<times> byte list" where
  "extract_call_cached H sc n =
     (case inner_keccak256_extract_cached H sc (Some (replicate n 0)) n of
        (rc, sc', out) \<Rightarrow> (rc, sc', case out of None \<Rightarrow> [] | Some ob \<Rightarrow> ob))"

text \<open>Successive calls on one context; each call gives its return code and its bytes.\<close>

fun extract_calls ::
  "(byte list \<Rightarrow> byte list) \<Rightarrow> keccak256_prng_ctx option \<Rightarrow> nat list
     \<Rightarrow> (int \<times> byte list) list" where
  "extract_calls H sc [] = []"
| "extract_calls H sc (n # ns) =
     (case extract_call H sc n of (rc, sc', bs) \<Rightarrow> (rc, bs) # extract_calls H sc' ns)"

fun extract_calls_cached ::
  "(byte list \<Rightarrow> byte list) \<Rightarrow> keccak256_prng_ctx_cached option \<Rightarrow> nat list
     \<Rightarrow> (int \<times> byte list) list" where
  "extract_calls_cached H sc [] = []"
| "extract_calls_cached H sc (n # ns) =
     (case extract_call_cached H sc n of
        (rc, sc', bs) \<Rightarrow> (rc, bs) # extract_calls_cached H sc' ns)"

text \<open>
  Successive calls of \<^verbatim>\<open>inject\<close>, one per chunk; as in \<^verbatim>\<open>test_prng.c\<close> the return codes
  are not looked at, and the context goes on to the next call.
\<close>

fun inject_all ::
  "nat \<Rightarrow> keccak256_prng_ctx option \<Rightarrow> byte list list \<Rightarrow> keccak256_prng_ctx option" where
  "inject_all MAXB sc [] = sc"
| "inject_all MAXB sc (a # as) =
     inject_all MAXB (snd (inner_keccak256_inject MAXB sc (Some a))) as"

fun inject_all_cached ::
  "nat \<Rightarrow> keccak256_prng_ctx_cached option \<Rightarrow> byte list list
     \<Rightarrow> keccak256_prng_ctx_cached option" where
  "inject_all_cached MAXB sc [] = sc"
| "inject_all_cached MAXB sc (a # as) =
     inject_all_cached MAXB (snd (inner_keccak256_inject_cached MAXB sc (Some a))) as"

text \<open>
  A whole session on the memory \<open>mem\<close> the context is allocated in (whatever it held):
  \<^verbatim>\<open>init\<close>, one \<^verbatim>\<open>inject\<close> per chunk, \<^verbatim>\<open>flip\<close>, then one \<^verbatim>\<open>extract\<close> per length.
\<close>

definition prng_session ::
  "(byte list \<Rightarrow> byte list) \<Rightarrow> nat \<Rightarrow> keccak256_prng_ctx \<Rightarrow> byte list list \<Rightarrow> nat list
     \<Rightarrow> (int \<times> byte list) list" where
  "prng_session H MAXB mem chunks ns =
     extract_calls H
       (snd (inner_keccak256_flip H
          (inject_all MAXB (snd (inner_keccak256_init MAXB (Some mem))) chunks))) ns"

definition prng_session_cached ::
  "(byte list \<Rightarrow> byte list) \<Rightarrow> nat \<Rightarrow> keccak256_prng_ctx_cached \<Rightarrow> byte list list \<Rightarrow> nat list
     \<Rightarrow> (int \<times> byte list) list" where
  "prng_session_cached H MAXB mem chunks ns =
     extract_calls_cached H
       (snd (inner_keccak256_flip_cached H
          (inject_all_cached MAXB (snd (inner_keccak256_init_cached MAXB (Some mem))) chunks))) ns"

section \<open>The counter-mode stream, as the specification words it\<close>

text \<open>The 8 bytes of a 64-bit value, most significant first.\<close>

definition big_endian_64 :: "64 word \<Rightarrow> byte list" where
  "big_endian_64 c = map (\<lambda>k. of_nat (unat c div 256 ^ (7 - k) mod 256)) [0..<8]"

text \<open>A request of \<open>n\<close> bytes takes \<open>\<lceil>n / 32\<rceil>\<close> blocks.\<close>

definition blocks_for :: "nat \<Rightarrow> nat" where
  "blocks_for n = (n + 31) div 32"

text \<open>
  The first \<open>n\<close> bytes of
  \<open>digest (st \<parallel> big_endian_64 c) \<parallel> digest (st \<parallel> big_endian_64 (c + 1)) \<parallel> \<dots>\<close>.
\<close>

definition expansion_stream ::
  "(byte list \<Rightarrow> byte list) \<Rightarrow> byte list \<Rightarrow> 64 word \<Rightarrow> nat \<Rightarrow> byte list" where
  "expansion_stream H st c n =
     take n (concat (map (\<lambda>i. H (st @ big_endian_64 (c + of_nat i))) [0..<blocks_for n]))"

text \<open>The same stream byte by byte, for the proofs: byte \<open>i\<close> lies in block \<open>i div 32\<close>.\<close>

definition stream_byte ::
  "(byte list \<Rightarrow> byte list) \<Rightarrow> byte list \<Rightarrow> 64 word \<Rightarrow> nat \<Rightarrow> byte" where
  "stream_byte H st c i = H (st @ counter_bytes (c + of_nat (i div 32))) ! (i mod 32)"

definition stream_bytes ::
  "(byte list \<Rightarrow> byte list) \<Rightarrow> byte list \<Rightarrow> 64 word \<Rightarrow> nat \<Rightarrow> byte list" where
  "stream_bytes H st c n = map (stream_byte H st c) [0..<n]"

text \<open>
  The cache of the caching version: the bytes \<^verbatim>\<open>out_buffer[out_buffer_pos .. out_buffer_len)\<close>
  not yet handed out, and the \<open>n\<close> bytes that are next in line: the cached ones, then the
  stream from the current counter.
\<close>

definition cached_bytes :: "keccak256_prng_ctx_cached \<Rightarrow> byte list" where
  "cached_bytes c =
     take (out_buffer_len c - out_buffer_pos c) (drop (out_buffer_pos c) (out_buffer c))"

definition upcoming ::
  "(byte list \<Rightarrow> byte list) \<Rightarrow> keccak256_prng_ctx_cached \<Rightarrow> nat \<Rightarrow> byte list" where
  "upcoming H c n =
     take n (cached_bytes c
             @ stream_bytes H (state c) (counter c) (n - length (cached_bytes c)))"

text \<open>
  The context after the loop of the caching version has produced \<open>r > 0\<close> further bytes:
  the cache holds the last block, read up to the bytes of it that were handed out. And
  the context after a whole call for \<open>n\<close> bytes, which takes the cached bytes first.
\<close>

definition refill ::
  "(byte list \<Rightarrow> byte list) \<Rightarrow> keccak256_prng_ctx_cached \<Rightarrow> nat \<Rightarrow> keccak256_prng_ctx_cached" where
  "refill H c r =
     c\<lparr>out_buffer := H (state c @ counter_bytes (counter c + of_nat (blocks_for r - 1))),
       out_buffer_len := 32,
       out_buffer_pos := r - 32 * (blocks_for r - 1),
       counter := counter c + of_nat (blocks_for r)\<rparr>"

definition after_extract ::
  "(byte list \<Rightarrow> byte list) \<Rightarrow> keccak256_prng_ctx_cached \<Rightarrow> nat \<Rightarrow> keccak256_prng_ctx_cached" where
  "after_extract H c n =
     (if n \<le> length (cached_bytes c) then c\<lparr>out_buffer_pos := out_buffer_pos c + n\<rparr>
      else refill H c (n - length (cached_bytes c)))"

text \<open>
  For the comparison of the two versions: the fields they share, and what \<^verbatim>\<open>inject\<close>
  does to a context when both pointers are valid (the same statements in both versions).
\<close>

definition same_core ::
  "'a keccak256_prng_ctx_scheme \<Rightarrow> 'b keccak256_prng_ctx_scheme \<Rightarrow> bool" where
  "same_core c d \<longleftrightarrow>
     buffer c = buffer d \<and> buffer_len c = buffer_len d \<and> state c = state d
     \<and> counter c = counter d \<and> finalized c = finalized d"

definition inject_core ::
  "nat \<Rightarrow> 'a keccak256_prng_ctx_scheme \<Rightarrow> byte list \<Rightarrow> 'a keccak256_prng_ctx_scheme" where
  "inject_core MAXB c bs =
     (if finalized c \<noteq> 0 \<or> size_add (buffer_len c) (length bs) > MAXB then c
      else c\<lparr>buffer := memcpy (buffer c) (buffer_len c) bs (length bs),
             buffer_len := size_add (buffer_len c) (length bs)\<rparr>)"

text \<open>
  The context \<^verbatim>\<open>init\<close> leaves (in the version with cache, \<open>ob\<close> is what \<^verbatim>\<open>out_buffer\<close>
  happened to hold), and the context a session has reached when \<^verbatim>\<open>flip\<close> has returned.
\<close>

definition fresh_ctx :: "nat \<Rightarrow> keccak256_prng_ctx" where
  "fresh_ctx MAXB =
     \<lparr>buffer = replicate MAXB 0, buffer_len = 0, state = replicate KECCAK256_OUTPUT 0,
      counter = 0, finalized = 0\<rparr>"

definition fresh_ctx_cached :: "nat \<Rightarrow> byte list \<Rightarrow> keccak256_prng_ctx_cached" where
  "fresh_ctx_cached MAXB ob =
     \<lparr>buffer = replicate MAXB 0, buffer_len = 0, state = replicate KECCAK256_OUTPUT 0,
      counter = 0, finalized = 0, out_buffer = ob, out_buffer_pos = 0, out_buffer_len = 0\<rparr>"

definition ready ::
  "(byte list \<Rightarrow> byte list) \<Rightarrow> nat \<Rightarrow> byte list list \<Rightarrow> keccak256_prng_ctx" where
  "ready H MAXB chunks =
     (let d = foldl (inject_core MAXB) (fresh_ctx MAXB) chunks
      in d\<lparr>state := H (take (buffer_len d) (buffer d)), finalized := 1\<rparr>)"

definition ready_cached ::
  "(byte list \<Rightarrow> byte list) \<Rightarrow> nat \<Rightarrow> byte list \<Rightarrow> byte list list
     \<Rightarrow> keccak256_prng_ctx_cached" where
  "ready_cached H MAXB ob chunks =
     (let c = foldl (inject_core MAXB) (fresh_ctx_cached MAXB ob) chunks
      in c\<lparr>state := H (take (buffer_len c) (buffer c)), finalized := 1,
            out_buffer_pos := 0, out_buffer_len := 0\<rparr>)"

section \<open>A stand-in hash for the concrete runs\<close>

text \<open>
  The concrete runs below need some function with 32-byte values in place of Keccak-256:
  32 copies of the sum of the input bytes (modulo 256).
\<close>

definition toy_digest :: "byte list \<Rightarrow> byte list" where
  "toy_digest m = replicate 32 (sum_list m)"

definition toy_sha3 :: "byte list \<Rightarrow> int \<times> byte list" where
  "toy_sha3 m = (0, toy_digest m)"

text \<open>A finalized context with the zero state and counter 0, in both versions.\<close>

definition ctx_fin :: keccak256_prng_ctx where
  "ctx_fin = \<lparr>buffer = replicate 4 0, buffer_len = 0, state = replicate 32 0,
              counter = 0, finalized = 1\<rparr>"

definition ctx_fin_cached :: keccak256_prng_ctx_cached where
  "ctx_fin_cached = \<lparr>buffer = replicate 4 0, buffer_len = 0, state = replicate 32 0,
              counter = 0, finalized = 1,
              out_buffer = replicate 32 0, out_buffer_pos = 0, out_buffer_len = 0\<rparr>"

text \<open>An open (not finalized) context whose buffer of capacity 4 is full.\<close>

definition ctx_full :: keccak256_prng_ctx where
  "ctx_full = \<lparr>buffer = [1, 2, 3, 4], buffer_len = 4, state = replicate 32 0,
               counter = 0, finalized = 0\<rparr>"

section \<open>Sizes\<close>

lemma size_add_mod: "size_add a b = (a + b) mod 2 ^ 64"
  by (simp add: size_add_def unat_word_ariths unat_of_nat mod_add_eq)

lemma size_add_small: "a + b < 2 ^ 64 \<Longrightarrow> size_add a b = a + b"
  by (simp add: size_add_mod)

section \<open>The big-endian counter and the stream\<close>

lemma mask_255: "(0xFF::64 word) = mask 8"
  by (simp add: mask_eq_exp_minus_1)

lemma byte_and_255: "(ucast (drop_bit n c AND (0xFF::64 word)) :: byte) = ucast (drop_bit n c)"
  unfolding mask_255 by (rule bit_word_eqI) (auto simp: bit_simps)

lemma unat_byte_drop_bit: "unat (ucast (drop_bit n (c::64 word)) :: byte) = unat c div 2 ^ n mod 256"
  by (simp add: unsigned_ucast_eq unat_drop_bit_eq take_bit_eq_mod drop_bit_nat_def)

lemma unat_byte_of_nat: "unat (of_nat (x mod 256) :: byte) = x mod 256"
  by (simp add: unat_of_nat)

lemma counter_byte_arith: "(ucast (drop_bit n c AND (0xFF::64 word)) :: byte) = of_nat (unat c div 2 ^ n mod 256)"
  by (simp only: word_unat_eq_iff byte_and_255 unat_byte_drop_bit unat_byte_of_nat)

lemma power_2_256: "k < 8 \<Longrightarrow> (2::nat) ^ (56 - k * 8) = 256 ^ (7 - k)"
proof -
  assume "k < 8"
  then have "56 - k * 8 = 8 * (7 - k)" by simp
  then have "(2::nat) ^ (56 - k * 8) = (2 ^ 8) ^ (7 - k)" by (simp only: power_mult)
  then show ?thesis by simp
qed

lemma counter_bytes_big_endian: "counter_bytes c = big_endian_64 c"
  unfolding counter_bytes_def big_endian_64_def
  by (rule map_cong[OF refl]) (simp add: counter_byte_arith power_2_256)

lemma stream_byte_shift: "stream_byte H st c (32 + i) = stream_byte H st (c + 1) i"
proof -
  have "(32 + i) div 32 = Suc (i div 32)" by simp
  then show ?thesis by (simp add: stream_byte_def add.assoc)
qed

lemma length_stream_bytes [simp]: "length (stream_bytes H st c n) = n"
  by (simp add: stream_bytes_def)

lemma stream_bytes_first:
  assumes "\<forall>m. length (H m) = 32" "n \<le> 32"
  shows "take n (H (st @ counter_bytes c)) = stream_bytes H st c n"
  using assms by (intro nth_equalityI) (auto simp: stream_bytes_def stream_byte_def)

lemma stream_bytes_add:
  "stream_bytes H st c (a + b) = stream_bytes H st c a @ map (\<lambda>i. stream_byte H st c (a + i)) [0..<b]"
  unfolding stream_bytes_def
  by (intro nth_equalityI) (auto simp: nth_append)

lemma stream_bytes_block:
  assumes "\<forall>m. length (H m) = 32"
  shows "stream_bytes H st c (32 + b) = H (st @ counter_bytes c) @ stream_bytes H st (c + 1) b"
proof -
  have "H (st @ counter_bytes c) = stream_bytes H st c 32"
    using stream_bytes_first [OF assms, of 32 st c] assms by simp
  moreover have "map (\<lambda>i. stream_byte H st c (32 + i)) [0..<b] = stream_bytes H st (c + 1) b"
    by (simp add: stream_bytes_def stream_byte_shift)
  ultimately show ?thesis by (simp add: stream_bytes_add)
qed

section \<open>The loop of the version without cache\<close>

lemma extract_loop_done: "\<not> offset < len \<Longrightarrow> extract_loop H c out offset len = (c, out)"
  by (subst extract_loop.simps) simp


lemma extract_loop_step:
  "offset < len \<Longrightarrow> extract_loop H c out offset len =
     extract_loop H (c\<lparr>counter := counter c + 1\<rparr>)
       (memcpy out offset (H (state c @ counter_bytes (counter c))) (copy_len len offset))
       (offset + copy_len len offset) len"
  by (subst extract_loop.simps) (simp add: Let_def)

lemma copy_len_cases:
  "offset < len \<Longrightarrow> 0 < copy_len len offset \<and> copy_len len offset \<le> 32
     \<and> offset + copy_len len offset \<le> len"
  by (auto simp add: copy_len_def KECCAK256_OUTPUT_def)

lemma blocks_for_step:
  "offset < len \<Longrightarrow> 1 + blocks_for (len - (offset + copy_len len offset)) = blocks_for (len - offset)"
  by (auto simp add: copy_len_def KECCAK256_OUTPUT_def blocks_for_def)


lemma memcpy_take:
  "off + n \<le> length dst \<Longrightarrow> n \<le> length src \<Longrightarrow>
     take (off + n) (memcpy dst off src n) = take off dst @ take n src"
  by (simp add: memcpy_def)

lemma memcpy_drop:
  "off + n \<le> k \<Longrightarrow> k \<le> length dst \<Longrightarrow> n \<le> length src \<Longrightarrow>
     drop k (memcpy dst off src n) = drop k dst"
  by (simp add: memcpy_def)

lemma memcpy_length:
  "off + n \<le> length dst \<Longrightarrow> n \<le> length src \<Longrightarrow> length (memcpy dst off src n) = length dst"
  by (simp add: memcpy_def)

lemma stream_bytes_copy:
  assumes H32: "\<forall>m. length (H m) = 32" and lt: "offset < len"
  shows "take (copy_len len offset) (H (st @ counter_bytes c))
           @ stream_bytes H st (c + 1) (len - (offset + copy_len len offset))
         = stream_bytes H st c (len - offset)"
proof (cases "len - offset > 32")
  case True
  then have t: "copy_len len offset = 32" by (simp add: copy_len_def KECCAK256_OUTPUT_def)
  define b where "b = len - (offset + 32)"
  have lo: "len - offset = 32 + b" using True by (simp add: b_def)
  have "stream_bytes H st c (len - offset)
      = H (st @ counter_bytes c) @ stream_bytes H st (c + 1) b"
    unfolding lo by (rule stream_bytes_block [OF H32])
  then show ?thesis using H32 by (simp add: t b_def)
next
  case False
  then have t: "copy_len len offset = len - offset" by (simp add: copy_len_def KECCAK256_OUTPUT_def)
  have "take (len - offset) (H (st @ counter_bytes c)) = stream_bytes H st c (len - offset)"
    using False by (intro stream_bytes_first [OF H32]) simp
  then show ?thesis by (simp add: t stream_bytes_def)
qed

lemma extract_loop_stream:
  "\<forall>m. length (H m) = 32 \<Longrightarrow> offset \<le> len \<Longrightarrow> len \<le> length out \<Longrightarrow>
     extract_loop H c out offset len =
       (c\<lparr>counter := counter c + of_nat (blocks_for (len - offset))\<rparr>,
        take offset out @ stream_bytes H (state c) (counter c) (len - offset) @ drop len out)"
proof (induction H c out offset len rule: extract_loop.induct)
  case (1 H c out offset len)
  note H32 = "1.prems"(1)
  show ?case
  proof (cases "offset < len")
    case False
    with "1.prems" have "offset = len" by simp
    then show ?thesis by (simp add: blocks_for_def stream_bytes_def extract_loop_done)
  next
    case True
    define t where "t = copy_len len offset"
    define B where "B = H (state c @ counter_bytes (counter c))"
    define out' where "out' = memcpy out offset B t"
    have t: "0 < t" "t \<le> 32" "offset + t \<le> len"
      using copy_len_cases [OF True] by (simp_all add: t_def)
    have lenB: "length B = 32" using H32 by (simp add: B_def)
    have tB: "t \<le> length B" and ot: "offset + t \<le> length out"
      using t lenB "1.prems" by simp_all
    have len': "len \<le> length out'"
      using memcpy_length [OF ot tB] "1.prems" by (simp add: out'_def)
    have IH: "extract_loop H (c\<lparr>counter := counter c + 1\<rparr>) out' (offset + t) len =
       (c\<lparr>counter := counter c + 1 + of_nat (blocks_for (len - (offset + t)))\<rparr>,
        take (offset + t) out' @ stream_bytes H (state c) (counter c + 1) (len - (offset + t))
          @ drop len out')"
      using "1.IH" [OF True refl refl refl refl H32 t(3) [unfolded t_def]
          len' [unfolded out'_def B_def t_def]]
      by (simp add: t_def B_def out'_def)
    have tk: "take (offset + t) out' = take offset out @ take t B"
      unfolding out'_def by (rule memcpy_take [OF ot tB])
    have dr: "drop len out' = drop len out"
      unfolding out'_def using "1.prems" by (intro memcpy_drop [OF t(3) _ tB]) simp
    have st: "take t B @ stream_bytes H (state c) (counter c + 1) (len - (offset + t))
        = stream_bytes H (state c) (counter c) (len - offset)"
      unfolding t_def B_def by (rule stream_bytes_copy [OF H32 True])
    have ct: "counter c + 1 + of_nat (blocks_for (len - (offset + t)))
        = counter c + of_nat (blocks_for (len - offset))"
    proof -
      have "blocks_for (len - offset) = Suc (blocks_for (len - (offset + t)))"
        using blocks_for_step [OF True] by (simp add: t_def)
      then show ?thesis by simp
    qed
    have "extract_loop H c out offset len =
        extract_loop H (c\<lparr>counter := counter c + 1\<rparr>) out' (offset + t) len"
      unfolding out'_def B_def t_def by (rule extract_loop_step [OF True])
    also note IH
    finally show ?thesis
      unfolding tk dr ct st [symmetric] by simp
  qed
qed

section \<open>The stream of the version without cache\<close>

lemma stream_byte_offset: "stream_byte H st c (32 * k + j) = stream_byte H st (c + of_nat k) j"
proof -
  have "(32 * k + j) div 32 = k + j div 32" "(32 * k + j) mod 32 = j mod 32" by simp_all
  then show ?thesis by (simp add: stream_byte_def add.assoc)
qed

lemma stream_block_whole:
  assumes "\<forall>m. length (H m) = 32"
  shows "map (\<lambda>i. stream_byte H st c (32 * k + i)) [0..<32] = H (st @ counter_bytes (c + of_nat k))"
  using assms by (intro nth_equalityI) (simp_all add: stream_byte_offset stream_byte_def)

lemma concat_blocks_stream:
  assumes "\<forall>m. length (H m) = 32"
  shows "concat (map (\<lambda>i. H (st @ counter_bytes (c + of_nat i))) [0..<k]) = stream_bytes H st c (32 * k)"
proof (induction k)
  case 0
  show ?case by (simp add: stream_bytes_def)
next
  case (Suc k)
  have "stream_bytes H st c (32 * Suc k) = stream_bytes H st c (32 * k + 32)"
    by (simp add: add.commute)
  also have "\<dots> = stream_bytes H st c (32 * k) @ H (st @ counter_bytes (c + of_nat k))"
    unfolding stream_bytes_add stream_block_whole [OF assms] ..
  finally show ?case using Suc by simp
qed

lemma blocks_for_covers: "n \<le> 32 * blocks_for n"
  by (simp add: blocks_for_def)

lemma expansion_stream_bytes:
  assumes "\<forall>m. length (H m) = 32"
  shows "expansion_stream H st c n = stream_bytes H st c n"
proof -
  have "expansion_stream H st c n = take n (stream_bytes H st c (32 * blocks_for n))"
    by (simp add: expansion_stream_def counter_bytes_big_endian [symmetric]
        concat_blocks_stream [OF assms])
  also have "\<dots> = stream_bytes H st c n"
    using blocks_for_covers [of n] by (simp add: stream_bytes_def take_map)
  finally show ?thesis .
qed

lemma extract_stream:
  assumes "\<forall>m. length (H m) = 32" "finalized c \<noteq> 0" "n \<le> length ob"
  shows "inner_keccak256_extract H (Some c) (Some ob) n =
     (0, Some (c\<lparr>counter := counter c + of_nat (blocks_for n)\<rparr>),
      Some (stream_bytes H (state c) (counter c) n @ drop n ob))"
  using assms by (simp add: inner_keccak256_extract_def extract_loop_stream)

lemma toy_digest_length: "\<forall>m. length (toy_digest m) = KECCAK256_OUTPUT"
  by (simp add: toy_digest_def KECCAK256_OUTPUT_def)

lemma replicate_2: "replicate 2 x = [x, x]"
  by (simp add: numeral_2_eq_2)

lemma toy_stream_34: "expansion_stream toy_digest (replicate 32 0) 0 34 = 
   replicate 32 0 @ [1, 1]"
  by (simp add: expansion_stream_def blocks_for_def toy_digest_def
      counter_bytes_big_endian [symmetric] counter_bytes_def upt_rec sum_list_replicate
      replicate_2)


section \<open>The loop of the version with cache\<close>

lemma stream_bytes_0 [simp]: "stream_bytes H st c 0 = []"
  by (simp add: stream_bytes_def)

lemma copy_len_cached_eq: "copy_len_cached len offset = copy_len len offset"
  by (simp add: copy_len_cached_def copy_len_def)

lemma extract_loop_cached_done:
  "\<not> offset < len \<Longrightarrow> extract_loop_cached H c out offset len = (c, out)"
  by (subst extract_loop_cached.simps) simp

lemma extract_loop_cached_step:
  "offset < len \<Longrightarrow> extract_loop_cached H c out offset len =
     extract_loop_cached H
       (c\<lparr>out_buffer := H (state c @ counter_bytes (counter c)),
          out_buffer_len := 32,
          out_buffer_pos := copy_len len offset,
          counter := counter c + 1\<rparr>)
       (memcpy out offset (H (state c @ counter_bytes (counter c))) (copy_len len offset))
       (offset + copy_len len offset) len"
  by (subst extract_loop_cached.simps)
     (simp add: Let_def copy_len_cached_eq KECCAK256_OUTPUT_def)

lemma blocks_for_small: "0 < r \<Longrightarrow> r \<le> 32 \<Longrightarrow> blocks_for r = 1"
  by (simp add: blocks_for_def)

lemma blocks_for_large: "32 < r \<Longrightarrow> blocks_for r = Suc (blocks_for (r - 32))"
  by (simp add: blocks_for_def)

lemma blocks_for_pos: "0 < r \<Longrightarrow> 0 < blocks_for r"
  by (simp add: blocks_for_def)

lemma refill_small:
  "0 < r \<Longrightarrow> r \<le> 32 \<Longrightarrow>
     refill H c r = c\<lparr>out_buffer := H (state c @ counter_bytes (counter c)),
          out_buffer_len := 32, out_buffer_pos := r, counter := counter c + 1\<rparr>"
  by (simp add: refill_def blocks_for_small)

lemma refill_large:
  assumes "32 < r"
  shows "refill H (c\<lparr>out_buffer := B, out_buffer_len := l, out_buffer_pos := p,
                      counter := counter c + 1\<rparr>) (r - 32) = refill H c r"
proof -
  obtain k where k: "blocks_for (r - 32) = Suc k"
    using blocks_for_pos [of "r - 32"] assms by (cases "blocks_for (r - 32)") auto
  have "blocks_for r = Suc (Suc k)" using blocks_for_large [OF assms] k by simp
  then show ?thesis using k by (simp add: refill_def add.assoc)
qed

lemma extract_loop_cached_stream:
  assumes H32: "\<forall>m. length (H m) = 32"
  shows "offset < len \<Longrightarrow> len \<le> length out \<Longrightarrow>
     extract_loop_cached H c out offset len =
       (refill H c (len - offset),
        take offset out @ stream_bytes H (state c) (counter c) (len - offset) @ drop len out)"
proof (induction "len - offset" arbitrary: c out offset rule: less_induct)
  case less
  define t where "t = copy_len len offset"
  define B where "B = H (state c @ counter_bytes (counter c))"
  define out' where "out' = memcpy out offset B t"
  define c2 where "c2 = c\<lparr>out_buffer := B, out_buffer_len := 32, out_buffer_pos := t,
      counter := counter c + 1\<rparr>"
  have lt: "offset < len" by (rule less.prems(1))
  have t: "0 < t" "t \<le> 32" "offset + t \<le> len"
    using copy_len_cases [OF lt] by (simp_all add: t_def)
  have lenB: "length B = 32" using H32 by (simp add: B_def)
  have tB: "t \<le> length B" and ot: "offset + t \<le> length out"
    using t lenB less.prems by simp_all
  have len': "len \<le> length out'"
    using memcpy_length [OF ot tB] less.prems by (simp add: out'_def)
  have tk: "take (offset + t) out' = take offset out @ take t B"
    unfolding out'_def by (rule memcpy_take [OF ot tB])
  have dr: "drop len out' = drop len out"
    unfolding out'_def using less.prems by (intro memcpy_drop [OF t(3) _ tB]) simp
  have st: "take t B @ stream_bytes H (state c) (counter c + 1) (len - (offset + t))
      = stream_bytes H (state c) (counter c) (len - offset)"
    unfolding t_def B_def by (rule stream_bytes_copy [OF H32 lt])
  have step: "extract_loop_cached H c out offset len =
      extract_loop_cached H c2 out' (offset + t) len"
    unfolding c2_def out'_def B_def t_def by (rule extract_loop_cached_step [OF lt])
  show ?case
  proof (cases "len - offset \<le> 32")
    case True
    then have tr: "t = len - offset" by (simp add: t_def copy_len_def KECCAK256_OUTPUT_def)
    then have fin: "\<not> offset + t < len" using lt by simp
    have "c2 = refill H c (len - offset)"
      using refill_small [of "len - offset" H c] lt True by (simp add: c2_def B_def tr)
    moreover have "out' = take offset out @ stream_bytes H (state c) (counter c) (len - offset)
        @ drop len out"
    proof -
      have "offset + t = len" using tr lt by simp
      then have "out' = take (offset + t) out' @ drop len out'" by simp
      then show ?thesis using st tr unfolding tk dr by simp
    qed
    ultimately show ?thesis
      unfolding step extract_loop_cached_done [OF fin] by simp
  next
    case False
    then have t32: "t = 32" by (simp add: t_def copy_len_def KECCAK256_OUTPUT_def)
    have lt': "offset + t < len" using False t32 by simp
    have "extract_loop_cached H c2 out' (offset + t) len =
       (refill H c2 (len - (offset + t)),
        take (offset + t) out' @ stream_bytes H (state c2) (counter c2) (len - (offset + t))
          @ drop len out')"
      using lt' len' t lt by (intro less.hyps) simp_all
    moreover have "refill H c2 (len - (offset + t)) = refill H c (len - offset)"
      using refill_large [where r = "len - offset" and H = H and c = c and B = B and l = 32 and p = t] False
      by (simp add: c2_def t32)
    ultimately show ?thesis
      unfolding step using st by (simp add: tk dr c2_def)
  qed
qed

section \<open>A call of the version with cache\<close>

lemma blocks_for_decomp:
  assumes "0 < r"
  shows "32 * (blocks_for r - 1) + (r - 32 * (blocks_for r - 1)) = r"
    and "0 < r - 32 * (blocks_for r - 1)" and "r - 32 * (blocks_for r - 1) \<le> 32"
    and "Suc (blocks_for r - 1) = blocks_for r"
  using assms by (auto simp: blocks_for_def)

lemma stream_tail:
  assumes H32: "\<forall>m. length (H m) = 32" and r: "0 < r"
  defines "q \<equiv> r - 32 * (blocks_for r - 1)"
  shows "map (\<lambda>i. stream_byte H st c (r + i)) [0..<m] =
     take m (drop q (H (st @ counter_bytes (c + of_nat (blocks_for r - 1))))
             @ stream_bytes H st (c + of_nat (blocks_for r)) (m - (32 - q)))"
proof -
  define k where "k = blocks_for r - 1"
  define B where "B = H (st @ counter_bytes (c + of_nat k))"
  have rq: "r = 32 * k + q" and q: "0 < q" "q \<le> 32" and k1: "blocks_for r = Suc k"
    using blocks_for_decomp [OF r] by (simp_all add: q_def k_def)
  have lenB: "length B = 32" using H32 by (simp add: B_def)
  show ?thesis
    unfolding k_def [symmetric] B_def [symmetric]
  proof (rule nth_equalityI)
    show "length (map (\<lambda>i. stream_byte H st c (r + i)) [0..<m]) =
      length (take m (drop q B @ stream_bytes H st (c + of_nat (blocks_for r)) (m - (32 - q))))"
      using lenB q by simp
  next
    fix i assume "i < length (map (\<lambda>i. stream_byte H st c (r + i)) [0..<m])"
    then have im: "i < m" by simp
    show "map (\<lambda>i. stream_byte H st c (r + i)) [0..<m] ! i =
      take m (drop q B @ stream_bytes H st (c + of_nat (blocks_for r)) (m - (32 - q))) ! i"
    proof (cases "i < 32 - q")
      case True
      have "stream_byte H st c (r + i) = stream_byte H st (c + of_nat k) (q + i)"
        unfolding rq by (simp add: stream_byte_offset add.assoc)
      also have "\<dots> = B ! (q + i)"
        using True by (simp add: stream_byte_def B_def)
      finally show ?thesis using im True lenB by (simp add: nth_append)
    next
      case False
      define j where "j = i - (32 - q)"
      have "r + i = 32 * Suc k + j" using False q by (simp add: rq j_def)
      then have "stream_byte H st c (r + i) = stream_byte H st (c + of_nat (Suc k)) j"
        by (simp only: stream_byte_offset)
      moreover have "j < m - (32 - q)" using False im by (simp add: j_def)
      ultimately show ?thesis using im False lenB q
        by (simp add: nth_append k1 j_def stream_bytes_def)
    qed
  qed
qed


lemma length_cached_bytes:
  "out_buffer_len c \<le> length (out_buffer c) \<Longrightarrow>
     length (cached_bytes c) = out_buffer_len c - out_buffer_pos c"
  by (simp add: cached_bytes_def)

lemma cached_bytes_advance:
  "cached_bytes (c\<lparr>out_buffer_pos := out_buffer_pos c + n\<rparr>) = drop n (cached_bytes c)"
  by (simp add: cached_bytes_def drop_take add.commute)

lemma cached_bytes_refill:
  assumes "\<forall>m. length (H m) = 32"
  shows "cached_bytes (refill H c r) =
     drop (r - 32 * (blocks_for r - 1))
       (H (state c @ counter_bytes (counter c + of_nat (blocks_for r - 1))))"
  using assms by (simp add: cached_bytes_def refill_def)

lemma refill_pos [simp]: "refill H (c\<lparr>out_buffer_pos := x\<rparr>) r = refill H c r"
  by (simp add: refill_def)

lemma refill_fields [simp]:
  "state (refill H c r) = state c" "finalized (refill H c r) = finalized c"
  "buffer (refill H c r) = buffer c" "buffer_len (refill H c r) = buffer_len c"
  "counter (refill H c r) = counter c + of_nat (blocks_for r)"
  by (simp_all add: refill_def)

lemma upcoming_cached_only:
  "n \<le> length (cached_bytes c) \<Longrightarrow> upcoming H c n = take n (cached_bytes c)"
  by (simp add: upcoming_def)

lemma upcoming_beyond:
  "length (cached_bytes c) \<le> n \<Longrightarrow>
     upcoming H c n = cached_bytes c
       @ stream_bytes H (state c) (counter c) (n - length (cached_bytes c))"
  by (simp add: upcoming_def)

lemma length_upcoming [simp]: "length (upcoming H c n) = n"
  by (simp add: upcoming_def)

lemma extract_cached_result:
  assumes H32: "\<forall>m. length (H m) = 32" and fin: "finalized c \<noteq> 0"
    and ok: "out_buffer_len c \<le> length (out_buffer c)" and n: "n \<le> length ob"
  shows "inner_keccak256_extract_cached H (Some c) (Some ob) n =
     (0, Some (after_extract H c n), Some (upcoming H c n @ drop n ob))"
proof -
  define a where "a = out_buffer_len c - out_buffer_pos c"
  have la: "length (cached_bytes c) = a"
    using length_cached_bytes [OF ok] by (simp add: a_def)
  show ?thesis
  proof (cases "out_buffer_pos c < out_buffer_len c")
    case nonempty: True
    show ?thesis
    proof (cases "n \<le> a")
      case True
      have "take n (drop (out_buffer_pos c) (out_buffer c)) = take n (cached_bytes c)"
        using True by (simp add: cached_bytes_def a_def min_def)
      then show ?thesis
        using True nonempty fin
        by (simp add: inner_keccak256_extract_cached_def Let_def memcpy_def a_def [symmetric]
            after_extract_def la upcoming_cached_only)
    next
      case False
      define ob1 where "ob1 = memcpy ob 0 (drop (out_buffer_pos c) (out_buffer c)) a"
      define c1 where "c1 = c\<lparr>out_buffer_pos := out_buffer_pos c + a\<rparr>"
      have ob1: "ob1 = cached_bytes c @ drop a ob"
        by (simp add: ob1_def memcpy_def cached_bytes_def a_def)
      have len1: "n \<le> length ob1" using n False la by (simp add: ob1)
      have loop: "extract_loop_cached H c1 ob1 a n =
         (refill H c1 (n - a),
          take a ob1 @ stream_bytes H (state c1) (counter c1) (n - a) @ drop n ob1)"
        using False len1 by (intro extract_loop_cached_stream [OF H32]) simp_all
      have "take a ob1 = cached_bytes c" "drop n ob1 = drop n ob"
        using False la by (simp_all add: ob1)
      with loop have loop': "extract_loop_cached H c1 ob1 a n =
         (after_extract H c n, upcoming H c n @ drop n ob)"
        using False la by (simp add: c1_def after_extract_def upcoming_beyond)
      show ?thesis
        using False nonempty fin loop'
        by (simp add: inner_keccak256_extract_cached_def Let_def a_def [symmetric]
            ob1_def [symmetric] c1_def [symmetric])
    qed
  next
    case empty: False
    then have a0: "a = 0" by (simp add: a_def)
    then have nil: "cached_bytes c = []" using la by simp
    show ?thesis
    proof (cases "n = 0")
      case True
      then show ?thesis
        using empty fin
        by (simp add: inner_keccak256_extract_cached_def extract_loop_cached_done
            after_extract_def upcoming_def)
    next
      case False
      then have "extract_loop_cached H c ob 0 n =
         (refill H c n, stream_bytes H (state c) (counter c) n @ drop n ob)"
        using extract_loop_cached_stream [OF H32, of 0 n ob c] n by simp
      then show ?thesis
        using empty fin False
        by (simp add: inner_keccak256_extract_cached_def after_extract_def nil upcoming_def)
    qed
  qed
qed

lemma upcoming_split:
  assumes H32: "\<forall>m. length (H m) = 32"
  shows "upcoming H c (n + m) = upcoming H c n @ upcoming H (after_extract H c n) m"
proof (cases "n \<le> length (cached_bytes c)")
  case True
  define p where "p = cached_bytes c"
  have "upcoming H (after_extract H c n) m =
      take m (drop n p @ stream_bytes H (state c) (counter c) (m - (length p - n)))"
    using True by (simp add: after_extract_def upcoming_def cached_bytes_advance p_def)
  moreover have "upcoming H c n = take n p"
    using True by (simp add: upcoming_cached_only p_def)
  moreover have "upcoming H c (n + m) =
     take n p @ take m (drop n p @ stream_bytes H (state c) (counter c) (n + m - length p))"
    using True by (simp add: upcoming_def p_def [symmetric] take_add)
  moreover have "n + m - length p = m - (length p - n)" using True by (simp add: p_def)
  ultimately show ?thesis by simp
next
  case False
  define p where "p = cached_bytes c"
  define r where "r = n - length p"
  have r: "0 < r" and n: "n = length p + r" using False by (simp_all add: r_def p_def)
  have "upcoming H c (n + m) = p @ stream_bytes H (state c) (counter c) (r + m)"
    using False by (simp add: upcoming_beyond p_def [symmetric] n)
  also have "stream_bytes H (state c) (counter c) (r + m) =
     stream_bytes H (state c) (counter c) r
       @ map (\<lambda>i. stream_byte H (state c) (counter c) (r + i)) [0..<m]"
    by (rule stream_bytes_add)
  also have "map (\<lambda>i. stream_byte H (state c) (counter c) (r + i)) [0..<m] =
     upcoming H (after_extract H c n) m"
    using False H32
    by (simp add: after_extract_def upcoming_def cached_bytes_refill [OF H32]
        stream_tail [OF H32 r] p_def [symmetric] r_def [symmetric])
  finally show ?thesis
    using False by (simp add: upcoming_beyond p_def [symmetric] r_def)
qed

section \<open>Counter-mode expansion\<close>

text \<open>
  C3. On a finalized context whose counter is 0, one call \<^verbatim>\<open>extract(n)\<close> returns 0 and
  stores in the caller's array exactly the first \<open>n\<close> bytes of
  \<open>H (state \<parallel> big_endian_64 0) \<parallel> H (state \<parallel> big_endian_64 1) \<parallel> \<dots>\<close>, each block being the
  32-byte digest of the derived state followed by the 8-byte big-endian counter; the
  counter has then advanced by one per block produced, \<open>\<lceil>n / 32\<rceil>\<close> in all, the last
  block being cut to the bytes still asked for. Nothing else of the context changes and
  the array beyond \<open>n\<close> is untouched. (\<open>H\<close> is any function with 32-byte values.)
\<close>

theorem extract_counter_mode:
  assumes "\<forall>m. length (H m) = KECCAK256_OUTPUT"
    and "finalized c \<noteq> 0" and "counter c = 0" and "n \<le> length ob"
  shows "inner_keccak256_extract H (Some c) (Some ob) n =
     (0, Some (c\<lparr>counter := of_nat (blocks_for n)\<rparr>),
      Some (expansion_stream H (state c) 0 n @ drop n ob))"
proof -
  have H32: "\<forall>m. length (H m) = 32" using assms(1) by (simp add: KECCAK256_OUTPUT_def)
  show ?thesis
    using extract_stream [OF H32 assms(2) assms(4)] assms(3)
    by (simp add: expansion_stream_bytes [OF H32])
qed

theorem extract_counter_mode_witness:
  "(\<forall>m. length (toy_digest m) = KECCAK256_OUTPUT) \<and> finalized ctx_fin \<noteq> 0
   \<and> counter ctx_fin = 0 \<and> 34 \<le> length (replicate 36 (7 :: byte))
   \<and> inner_keccak256_extract toy_digest (Some ctx_fin) (Some (replicate 36 7)) 34 =
     (0, Some (ctx_fin\<lparr>counter := 2\<rparr>), Some (replicate 32 0 @ [1, 1, 7, 7]))"
proof -
  have a: "finalized ctx_fin \<noteq> 0" "counter ctx_fin = 0" "34 \<le> length (replicate 36 (7 :: byte))"
    by (simp_all add: ctx_fin_def)
  have b: "blocks_for 34 = 2" by (simp add: blocks_for_def)
  show ?thesis
    using extract_counter_mode [OF toy_digest_length a] toy_digest_length a
    by (simp add: b toy_stream_34 ctx_fin_def replicate_2)
qed

text \<open>
  The version with cache does the same on a finalized context with counter 0 and the
  cache as \<^verbatim>\<open>flip\<close> leaves it.
\<close>

lemma extract_cached_counter_mode:
  assumes "\<forall>m. length (H m) = KECCAK256_OUTPUT"
    and "finalized d \<noteq> 0" and "counter d = 0" and "out_buffer_len d = 0"
    and "n \<le> length ob"
  shows "inner_keccak256_extract_cached H (Some d) (Some ob) n =
       (0, Some (after_extract H d n), Some (expansion_stream H (state d) 0 n @ drop n ob))"
    and "counter (after_extract H d n) = of_nat (blocks_for n)"
proof -
  have H32: "\<forall>m. length (H m) = 32" using assms(1) by (simp add: KECCAK256_OUTPUT_def)
  have nil: "cached_bytes d = []" using assms(4) by (simp add: cached_bytes_def)
  have ok: "out_buffer_len d \<le> length (out_buffer d)" using assms(4) by simp
  show "inner_keccak256_extract_cached H (Some d) (Some ob) n =
       (0, Some (after_extract H d n), Some (expansion_stream H (state d) 0 n @ drop n ob))"
    using extract_cached_result [OF H32 assms(2) ok assms(5)] nil assms(3)
    by (simp add: upcoming_beyond expansion_stream_bytes [OF H32])
  show "counter (after_extract H d n) = of_nat (blocks_for n)"
    using nil assms(3) by (cases "n = 0") (simp_all add: after_extract_def blocks_for_def)
qed

section \<open>Calls of \<^verbatim>\<open>extract\<close> in sequence\<close>

lemma after_extract_fields [simp]:
  "state (after_extract H c n) = state c" "finalized (after_extract H c n) = finalized c"
  "buffer (after_extract H c n) = buffer c" "buffer_len (after_extract H c n) = buffer_len c"
  by (simp_all add: after_extract_def)

lemma after_extract_ok:
  assumes "\<forall>m. length (H m) = 32" "out_buffer_len c \<le> length (out_buffer c)"
  shows "out_buffer_len (after_extract H c n) \<le> length (out_buffer (after_extract H c n))"
  using assms by (simp add: after_extract_def refill_def)

lemma extract_call_cached_result:
  assumes "\<forall>m. length (H m) = 32" "finalized c \<noteq> 0"
    "out_buffer_len c \<le> length (out_buffer c)"
  shows "extract_call_cached H (Some c) n = (0, Some (after_extract H c n), upcoming H c n)"
  using extract_cached_result [OF assms, of n "replicate n 0"]
  by (simp add: extract_call_cached_def)

lemma extract_call_result:
  assumes "\<forall>m. length (H m) = 32" "finalized d \<noteq> 0"
  shows "extract_call H (Some d) n =
     (0, Some (d\<lparr>counter := counter d + of_nat (blocks_for n)\<rparr>),
      stream_bytes H (state d) (counter d) n)"
  using extract_stream [OF assms, of n "replicate n 0"]
  by (simp add: extract_call_def)

lemma blocks_for_dvd: "32 dvd n \<Longrightarrow> 32 * blocks_for n = n"
  by (auto simp: blocks_for_def elim!: dvdE)

lemma stream_bytes_block_split:
  assumes "32 dvd n1"
  shows "stream_bytes H st c (n1 + n2) =
     stream_bytes H st c n1 @ stream_bytes H st (c + of_nat (blocks_for n1)) n2"
proof -
  have "map (\<lambda>i. stream_byte H st c (n1 + i)) [0..<n2] =
      stream_bytes H st (c + of_nat (blocks_for n1)) n2"
    using stream_byte_offset [of H st c "blocks_for n1"] blocks_for_dvd [OF assms]
    by (simp add: stream_bytes_def)
  then show ?thesis by (simp add: stream_bytes_add)
qed

text \<open>
  C1 (as amended). Two successive calls \<^verbatim>\<open>extract(n1)\<close>, \<^verbatim>\<open>extract(n2)\<close> return the bytes
  of one call \<^verbatim>\<open>extract(n1 + n2)\<close>, split at \<open>n1\<close>,
  \<^item> in the version with the output cache, for every finalized context and all \<open>n1\<close>,
    \<open>n2\<close>;
  \<^item> in the version without cache, whenever \<open>n1\<close> is a multiple of the 32-byte block.
  Without the cache every call starts at a fresh block: the second call returns the
  stream from block \<open>counter + \<lceil>n1 / 32\<rceil>\<close> on, and the rest of the last block of the
  first call is dropped.
\<close>

theorem sequential_extraction:
  assumes H32: "\<forall>m. length (H m) = KECCAK256_OUTPUT"
    and c: "finalized c \<noteq> 0" "out_buffer_len c \<le> length (out_buffer c)"
    and d: "finalized d \<noteq> 0"
  shows "(\<exists>o1 o2. length o1 = n1 \<and> length o2 = n2
           \<and> extract_calls_cached H (Some c) [n1, n2] = [(0, o1), (0, o2)]
           \<and> extract_calls_cached H (Some c) [n1 + n2] = [(0, o1 @ o2)])
       \<and> (32 dvd n1 \<longrightarrow>
           (\<exists>o1 o2. length o1 = n1 \<and> length o2 = n2
             \<and> extract_calls H (Some d) [n1, n2] = [(0, o1), (0, o2)]
             \<and> extract_calls H (Some d) [n1 + n2] = [(0, o1 @ o2)]))
       \<and> extract_calls H (Some d) [n1, n2] =
           [(0, expansion_stream H (state d) (counter d) n1),
            (0, expansion_stream H (state d) (counter d + of_nat (blocks_for n1)) n2)]"
proof -
  have H: "\<forall>m. length (H m) = 32" using H32 by (simp add: KECCAK256_OUTPUT_def)
  let ?c1 = "after_extract H c n1"
  have c1: "finalized ?c1 \<noteq> 0" "out_buffer_len ?c1 \<le> length (out_buffer ?c1)"
    using c after_extract_ok [OF H c(2)] by simp_all
  have "extract_calls_cached H (Some c) [n1, n2] =
      [(0, upcoming H c n1), (0, upcoming H ?c1 n2)]"
    by (simp add: extract_call_cached_result [OF H c] extract_call_cached_result [OF H c1])
  moreover have "extract_calls_cached H (Some c) [n1 + n2] =
      [(0, upcoming H c n1 @ upcoming H ?c1 n2)]"
    by (simp add: extract_call_cached_result [OF H c] upcoming_split [OF H])
  ultimately have cached: "\<exists>o1 o2. length o1 = n1 \<and> length o2 = n2
           \<and> extract_calls_cached H (Some c) [n1, n2] = [(0, o1), (0, o2)]
           \<and> extract_calls_cached H (Some c) [n1 + n2] = [(0, o1 @ o2)]"
    by (intro exI [of _ "upcoming H c n1"] exI [of _ "upcoming H ?c1 n2"]) simp
  let ?d1 = "d\<lparr>counter := counter d + of_nat (blocks_for n1)\<rparr>"
  have d1: "finalized ?d1 \<noteq> 0" using d by simp
  have two: "extract_calls H (Some d) [n1, n2] =
      [(0, stream_bytes H (state d) (counter d) n1),
       (0, stream_bytes H (state d) (counter d + of_nat (blocks_for n1)) n2)]"
    by (simp add: extract_call_result [OF H d] extract_call_result [OF H d1])
  then have plain: "extract_calls H (Some d) [n1, n2] =
           [(0, expansion_stream H (state d) (counter d) n1),
            (0, expansion_stream H (state d) (counter d + of_nat (blocks_for n1)) n2)]"
    by (simp add: expansion_stream_bytes [OF H])
  have aligned: "32 dvd n1 \<longrightarrow>
         (\<exists>o1 o2. length o1 = n1 \<and> length o2 = n2
           \<and> extract_calls H (Some d) [n1, n2] = [(0, o1), (0, o2)]
           \<and> extract_calls H (Some d) [n1 + n2] = [(0, o1 @ o2)])"
  proof
    assume "32 dvd n1"
    then have "extract_calls H (Some d) [n1 + n2] =
      [(0, stream_bytes H (state d) (counter d) n1
           @ stream_bytes H (state d) (counter d + of_nat (blocks_for n1)) n2)]"
      by (simp add: extract_call_result [OF H d] stream_bytes_block_split)
    with two show "\<exists>o1 o2. length o1 = n1 \<and> length o2 = n2
           \<and> extract_calls H (Some d) [n1, n2] = [(0, o1), (0, o2)]
           \<and> extract_calls H (Some d) [n1 + n2] = [(0, o1 @ o2)]"
      by (intro exI [of _ "stream_bytes H (state d) (counter d) n1"]
          exI [of _ "stream_bytes H (state d) (counter d + of_nat (blocks_for n1)) n2"]) simp
  qed
  from cached aligned plain show ?thesis by (intro conjI)
qed

theorem sequential_extraction_witness:
  "(\<forall>m. length (toy_digest m) = KECCAK256_OUTPUT)
   \<and> finalized ctx_fin_cached \<noteq> 0
   \<and> out_buffer_len ctx_fin_cached \<le> length (out_buffer ctx_fin_cached)
   \<and> finalized ctx_fin \<noteq> 0 \<and> (32::nat) dvd 32
   \<and> (\<exists>o1 o2. length o1 = 32 \<and> length o2 = 3
        \<and> extract_calls_cached toy_digest (Some ctx_fin_cached) [32, 3] = [(0, o1), (0, o2)]
        \<and> extract_calls_cached toy_digest (Some ctx_fin_cached) [32 + 3] = [(0, o1 @ o2)])
   \<and> (\<exists>o1 o2. length o1 = 32 \<and> length o2 = 3
        \<and> extract_calls toy_digest (Some ctx_fin) [32, 3] = [(0, o1), (0, o2)]
        \<and> extract_calls toy_digest (Some ctx_fin) [32 + 3] = [(0, o1 @ o2)])"
proof -
  have a: "finalized ctx_fin_cached \<noteq> 0"
    "out_buffer_len ctx_fin_cached \<le> length (out_buffer ctx_fin_cached)"
    by (simp_all add: ctx_fin_cached_def)
  have b: "finalized ctx_fin \<noteq> 0" by (simp add: ctx_fin_def)
  have dv: "(32::nat) dvd 32" by simp
  show ?thesis
    using sequential_extraction [OF toy_digest_length a b, of 32 3] toy_digest_length a b dv
    by blast
qed

text \<open>
  The version without cache, two calls of one byte against one call of two bytes, with
  the stand-in hash: the second single byte is the first byte of block 1, not the second
  byte of block 0.
\<close>

theorem sequential_extraction_counterexample:
  "finalized ctx_fin \<noteq> 0
   \<and> extract_calls toy_digest (Some ctx_fin) [1, 1] = [(0, [0]), (0, [1])]
   \<and> extract_calls toy_digest (Some ctx_fin) [1 + 1] = [(0, [0, 0])]"
  by code_simp

section \<open>Initialisation\<close>

text \<open>
  C10. \<^verbatim>\<open>init\<close> has no guard on the phase: on a context in any state, finalized and used
  or not, it returns 0 and leaves the input buffer zeroed (\<open>MAXB\<close> zero bytes), the input
  length 0, the derived state zeroed, the counter 0 and the flag 0; in the caching
  version the cache is empty as well (position and length 0; the bytes of \<^verbatim>\<open>out_buffer\<close>
  are not touched, and are out of reach with length 0). The context that comes out is
  open again: \<^verbatim>\<open>inject\<close> accepts input and \<^verbatim>\<open>flip\<close> finalizes it. The functions of
  \<^verbatim>\<open>part_001\<close> are those of \<^verbatim>\<open>keccak_prng.c\<close>, line for line.
\<close>

theorem init_resets_any_state:
  "inner_keccak256_init MAXB (Some c) =
     (0, Some \<lparr>buffer = replicate MAXB 0, buffer_len = 0,
               state = replicate KECCAK256_OUTPUT 0, counter = 0, finalized = 0\<rparr>)
   \<and> inner_keccak256_init_cached MAXB (Some d) =
     (0, Some \<lparr>buffer = replicate MAXB 0, buffer_len = 0,
               state = replicate KECCAK256_OUTPUT 0, counter = 0, finalized = 0,
               out_buffer = out_buffer d, out_buffer_pos = 0, out_buffer_len = 0\<rparr>)
   \<and> fst (inner_keccak256_inject MAXB (snd (inner_keccak256_init MAXB (Some c))) (Some []))
       = 0
   \<and> fst (inner_keccak256_flip H (snd (inner_keccak256_init MAXB (Some c)))) = 0
   \<and> fst (inner_keccak256_inject_cached MAXB
            (snd (inner_keccak256_init_cached MAXB (Some d))) (Some [])) = 0
   \<and> fst (inner_keccak256_flip_cached H (snd (inner_keccak256_init_cached MAXB (Some d))))
       = 0"
  by (simp add: inner_keccak256_init_def inner_keccak256_init_cached_def
      inner_keccak256_flip_def inner_keccak256_flip_cached_def inner_keccak256_inject_def
      inner_keccak256_inject_cached_def size_add_mod)

section \<open>Phase guards\<close>

lemma null_pointer_guard:
  "inner_keccak256_init MAXB None = (InvalidArgumentError, None)"
  "inner_keccak256_inject MAXB None inp = (InvalidArgumentError, None)"
  "inner_keccak256_inject MAXB (Some c) None = (InvalidArgumentError, Some c)"
  "inner_keccak256_flip H None = (InvalidArgumentError, None)"
  "inner_keccak256_extract H None out n = (InvalidArgumentError, None, out)"
  "inner_keccak256_extract H (Some c) None n = (InvalidArgumentError, Some c, None)"
  by (simp_all add: inner_keccak256_init_def inner_keccak256_inject_def
      inner_keccak256_flip_def inner_keccak256_extract_def InvalidArgumentError_def)

text \<open>
  C6. In the version without cache and in the version with cache alike: \<^verbatim>\<open>inject\<close> on a
  finalized context returns -2 (invalid state) and the context is unchanged; \<^verbatim>\<open>extract\<close>
  on a context not yet finalized returns -2, context and output array unchanged;
  \<^verbatim>\<open>flip\<close> on a finalized context returns -2, context unchanged. And whatever the
  arguments (null pointers included), a call of \<^verbatim>\<open>init\<close>, \<^verbatim>\<open>inject\<close>, \<^verbatim>\<open>flip\<close> or
  \<^verbatim>\<open>extract\<close> that returns a non-zero code has changed nothing.
\<close>

theorem phase_guards:
  "(finalized ci \<noteq> 0 \<longrightarrow>
      inner_keccak256_inject MAXB (Some ci) (Some bs) = (InvalidStateError, Some ci))
   \<and> (finalized ce = 0 \<longrightarrow>
      inner_keccak256_extract H (Some ce) (Some ob) n = (InvalidStateError, Some ce, Some ob))
   \<and> (finalized cf \<noteq> 0 \<longrightarrow>
      inner_keccak256_flip H (Some cf) = (InvalidStateError, Some cf))
   \<and> (finalized di \<noteq> 0 \<longrightarrow>
      inner_keccak256_inject_cached MAXB (Some di) (Some bs) = (InvalidStateError, Some di))
   \<and> (finalized de = 0 \<longrightarrow>
      inner_keccak256_extract_cached H (Some de) (Some ob) n
        = (InvalidStateError, Some de, Some ob))
   \<and> (finalized df \<noteq> 0 \<longrightarrow>
      inner_keccak256_flip_cached H (Some df) = (InvalidStateError, Some df))
   \<and> (fst (inner_keccak256_init MAXB sinit) \<noteq> 0 \<longrightarrow> snd (inner_keccak256_init MAXB sinit) = sinit)
   \<and> (fst (inner_keccak256_inject MAXB sinj inp) \<noteq> 0 \<longrightarrow>
        snd (inner_keccak256_inject MAXB sinj inp) = sinj)
   \<and> (fst (inner_keccak256_flip H sflip) \<noteq> 0 \<longrightarrow> snd (inner_keccak256_flip H sflip) = sflip)
   \<and> (fst (inner_keccak256_extract H sext out n) \<noteq> 0 \<longrightarrow>
        snd (inner_keccak256_extract H sext out n) = (sext, out))
   \<and> (fst (inner_keccak256_init_cached MAXB tinit) \<noteq> 0 \<longrightarrow>
        snd (inner_keccak256_init_cached MAXB tinit) = tinit)
   \<and> (fst (inner_keccak256_inject_cached MAXB tinj inp) \<noteq> 0 \<longrightarrow>
        snd (inner_keccak256_inject_cached MAXB tinj inp) = tinj)
   \<and> (fst (inner_keccak256_flip_cached H tflip) \<noteq> 0 \<longrightarrow>
        snd (inner_keccak256_flip_cached H tflip) = tflip)
   \<and> (fst (inner_keccak256_extract_cached H text out n) \<noteq> 0 \<longrightarrow>
        snd (inner_keccak256_extract_cached H text out n) = (text, out))"
proof (intro conjI impI)
  show "fst (inner_keccak256_extract H sext out n) \<noteq> 0 \<Longrightarrow>
        snd (inner_keccak256_extract H sext out n) = (sext, out)"
    by (auto simp: inner_keccak256_extract_def split: option.splits prod.splits if_splits)
  show "fst (inner_keccak256_extract_cached H text out n) \<noteq> 0 \<Longrightarrow>
        snd (inner_keccak256_extract_cached H text out n) = (text, out)"
    by (auto simp: inner_keccak256_extract_cached_def Let_def
        split: option.splits prod.splits if_splits)
qed (auto simp: inner_keccak256_init_def inner_keccak256_inject_def inner_keccak256_flip_def
      inner_keccak256_extract_def inner_keccak256_init_cached_def
      inner_keccak256_inject_cached_def inner_keccak256_flip_cached_def
      inner_keccak256_extract_cached_def InvalidStateError_def
      split: option.splits if_splits)

theorem phase_guards_witness:
  "finalized ctx_fin \<noteq> 0 \<and> finalized ctx_full = 0
   \<and> inner_keccak256_inject 4 (Some ctx_fin) (Some [1]) = (InvalidStateError, Some ctx_fin)
   \<and> inner_keccak256_extract toy_digest (Some ctx_full) (Some [9]) 1
        = (InvalidStateError, Some ctx_full, Some [9])
   \<and> inner_keccak256_flip toy_digest (Some ctx_fin) = (InvalidStateError, Some ctx_fin)
   \<and> fst (inner_keccak256_init 4 None) \<noteq> 0 \<and> snd (inner_keccak256_init 4 None) = None
   \<and> fst (inner_keccak256_inject 4 (Some ctx_full) (Some [1])) \<noteq> 0
   \<and> snd (inner_keccak256_inject 4 (Some ctx_full) (Some [1])) = Some ctx_full"
proof -
  have a: "finalized ctx_fin \<noteq> 0" "finalized ctx_full = 0"
    by (simp_all add: ctx_fin_def ctx_full_def)
  have b: "fst (inner_keccak256_init 4 None) \<noteq> 0"
    by (simp add: inner_keccak256_init_def)
  have c: "fst (inner_keccak256_inject 4 (Some ctx_full) (Some [1])) \<noteq> 0"
    by (simp add: inner_keccak256_inject_def ctx_full_def size_add_mod)
  show ?thesis
    using phase_guards [where ci = ctx_fin and ce = ctx_full and cf = ctx_fin and MAXB = 4
        and bs = "[1]" and H = toy_digest and ob = "[9]" and n = 1 and sinit = None
        and sinj = "Some ctx_full" and inp = "Some [1]"] a b c
    by blast
qed



section \<open>The capacity guard\<close>

text \<open>
  C7. On a context not yet finalized, \<^verbatim>\<open>inject\<close> of a chunk returns -3 (overflow) and
  leaves the whole context unchanged, so copies nothing, when the absorbed length plus
  the chunk's length exceeds \<^verbatim>\<open>MAX_BUFFER_SIZE\<close>; otherwise it returns 0, the chunk is
  copied whole behind the absorbed bytes and the length grows by the chunk's length.
  (The sum is a \<^verbatim>\<open>size_t\<close>: the chunk is taken to fit the address space, so that the sum
  does not wrap. The function is the same, line for line, in \<^verbatim>\<open>keccak_prng.c\<close> and in
  \<^verbatim>\<open>part_001\<close>.)
\<close>

theorem inject_capacity_guard:
  assumes "finalized c = 0" and "buffer_len c + length bs < 2 ^ 64"
  shows "inner_keccak256_inject MAXB (Some c) (Some bs) =
     (if buffer_len c + length bs > MAXB then (OverflowError, Some c)
      else (0, Some (c\<lparr>buffer := memcpy (buffer c) (buffer_len c) bs (length bs),
                        buffer_len := buffer_len c + length bs\<rparr>)))
   \<and> take (buffer_len c + length bs) (memcpy (buffer c) (buffer_len c) bs (length bs))
       = take (buffer_len c) (buffer c) @ bs"
  using assms
  by (auto simp: inner_keccak256_inject_def size_add_mod OverflowError_def memcpy_def)

theorem inject_capacity_guard_witness:
  "finalized ctx_full = 0 \<and> buffer_len ctx_full + length [5 :: byte] < 2 ^ 64
   \<and> inner_keccak256_inject 4 (Some ctx_full) (Some [5]) = (OverflowError, Some ctx_full)
   \<and> inner_keccak256_inject 8 (Some (ctx_full\<lparr>buffer := [1, 2, 3, 4, 0, 0, 0, 0]\<rparr>)) (Some [5])
       = (0, Some (ctx_full\<lparr>buffer := [1, 2, 3, 4, 5, 0, 0, 0], buffer_len := 5\<rparr>))"
proof -
  let ?c = "ctx_full\<lparr>buffer := [1, 2, 3, 4, 0, 0, 0, 0]\<rparr>"
  have a: "finalized ctx_full = 0" "buffer_len ctx_full + length [5 :: byte] < 2 ^ 64"
    by (simp_all add: ctx_full_def)
  have b: "finalized ?c = 0" "buffer_len ?c + length [5 :: byte] < 2 ^ 64"
    by (simp_all add: ctx_full_def)
  show ?thesis
    using inject_capacity_guard [OF a, of 4] inject_capacity_guard [OF b, of 8] a
    by (simp add: ctx_full_def memcpy_def)
qed

section \<open>Finalization\<close>

lemma take_Suc_update:
  "n < length xs \<Longrightarrow> take (Suc n) (xs[n := x]) = take n xs @ [x]"
  by (simp add: take_Suc_conv_app_nth)

text \<open>
  C8 (as amended). \<^verbatim>\<open>flip\<close> on a finalized context returns -2 and changes nothing, in all
  three versions. On a context not yet finalized,
  \<^item> the versions without domain separation always succeed: the state becomes the digest
    of the absorbed bytes \<^verbatim>\<open>buffer[0 .. buffer_len)\<close>, the flag becomes 1, and the version
    with cache empties the cache (position and length 0);
  \<^item> the version with the domain-separation byte needs room for that byte: with
    \<^verbatim>\<open>buffer_len = MAX_BUFFER_SIZE\<close> (or more) it returns -3 and changes nothing; with
    \<^verbatim>\<open>buffer_len < MAX_BUFFER_SIZE\<close>, and the hash reporting success, it stores \<^verbatim>\<open>0x1F\<close>
    behind the absorbed bytes, counts it in \<^verbatim>\<open>buffer_len\<close>, sets the state to the digest of
    the absorbed bytes followed by \<^verbatim>\<open>0x1F\<close> and the flag to 1.
\<close>

theorem flip_derives_state:
  assumes "buffer_len e + 1 < 2 ^ 64"
  shows "inner_keccak256_flip H (Some c) =
       (if finalized c \<noteq> 0 then (InvalidStateError, Some c)
        else (0, Some (c\<lparr>state := H (take (buffer_len c) (buffer c)), finalized := 1\<rparr>)))
   \<and> inner_keccak256_flip_cached H (Some d) =
       (if finalized d \<noteq> 0 then (InvalidStateError, Some d)
        else (0, Some (d\<lparr>state := H (take (buffer_len d) (buffer d)), finalized := 1,
                          out_buffer_pos := 0, out_buffer_len := 0\<rparr>)))
   \<and> (finalized e \<noteq> 0 \<longrightarrow>
        inner_keccak256_flip_ds sha MAXB (Some e) = (InvalidStateError, Some e))
   \<and> (finalized e = 0 \<and> MAXB \<le> buffer_len e \<longrightarrow>
        inner_keccak256_flip_ds sha MAXB (Some e) = (OverflowError, Some e))
   \<and> (finalized e = 0 \<and> buffer_len e < MAXB \<and> buffer_len e < length (buffer e)
        \<and> fst (sha (take (buffer_len e) (buffer e) @ [0x1F])) = 0 \<longrightarrow>
        inner_keccak256_flip_ds sha MAXB (Some e) =
          (0, Some (e\<lparr>buffer := (buffer e)[buffer_len e := 0x1F],
                       buffer_len := buffer_len e + 1,
                       state := snd (sha (take (buffer_len e) (buffer e) @ [0x1F])),
                       finalized := 1\<rparr>)))"
  using assms
  by (auto simp: inner_keccak256_flip_def inner_keccak256_flip_cached_def
      inner_keccak256_flip_ds_def InvalidStateError_def OverflowError_def size_add_mod
      Let_def take_Suc_update split: prod.splits)

text \<open>
  The version with the domain-separation byte, on an open context whose buffer of
  capacity 4 holds 4 bytes: \<^verbatim>\<open>flip\<close> fails, and with the overflow code.
\<close>

theorem flip_derives_state_counterexample:
  "finalized ctx_full = 0 \<and> buffer_len ctx_full \<le> 4
   \<and> inner_keccak256_flip_ds toy_sha3 4 (Some ctx_full) = (OverflowError, Some ctx_full)
   \<and> OverflowError \<noteq> InvalidStateError"
  by (simp add: inner_keccak256_flip_ds_def ctx_full_def size_add_mod OverflowError_def
      InvalidStateError_def)

theorem flip_derives_state_witness:
  "buffer_len ctx_full + 1 < 2 ^ 64 \<and> finalized ctx_fin \<noteq> 0 \<and> finalized ctx_full = 0
   \<and> inner_keccak256_flip_ds toy_sha3 4 (Some ctx_fin) = (InvalidStateError, Some ctx_fin)
   \<and> inner_keccak256_flip_ds toy_sha3 4 (Some ctx_full) = (OverflowError, Some ctx_full)
   \<and> inner_keccak256_flip_ds toy_sha3 8 (Some (ctx_full\<lparr>buffer := [1, 2, 3, 4, 0, 0, 0, 0]\<rparr>))
       = (0, Some (ctx_full\<lparr>buffer := [1, 2, 3, 4, 0x1F, 0, 0, 0], buffer_len := 5,
                              state := replicate 32 41, finalized := 1\<rparr>))
   \<and> inner_keccak256_flip toy_digest (Some ctx_full)
       = (0, Some (ctx_full\<lparr>state := replicate 32 10, finalized := 1\<rparr>))"
proof -
  let ?e = "ctx_full\<lparr>buffer := [1, 2, 3, 4, 0, 0, 0, 0]\<rparr>"
  have a: "buffer_len ctx_fin + 1 < 2 ^ 64" "buffer_len ctx_full + 1 < 2 ^ 64"
    "buffer_len ?e + 1 < 2 ^ 64"
    by (simp_all add: ctx_fin_def ctx_full_def)
  have b: "finalized ctx_fin \<noteq> 0" "finalized ctx_full = 0"
    by (simp_all add: ctx_fin_def ctx_full_def)
  have c: "finalized ?e = 0 \<and> buffer_len ?e < 8 \<and> buffer_len ?e < length (buffer ?e)
        \<and> fst (toy_sha3 (take (buffer_len ?e) (buffer ?e) @ [0x1F])) = 0"
    by (simp add: ctx_full_def toy_sha3_def)
  have d: "finalized ctx_full = 0 \<and> 4 \<le> buffer_len ctx_full"
    by (simp add: ctx_full_def)
  have e: "snd (toy_sha3 (take (buffer_len ?e) (buffer ?e) @ [0x1F])) = replicate 32 41"
    "toy_digest (take (buffer_len ctx_full) (buffer ctx_full)) = replicate 32 10"
    by (simp_all add: ctx_full_def toy_sha3_def toy_digest_def)
  have 1: "inner_keccak256_flip_ds toy_sha3 4 (Some ctx_fin) = (InvalidStateError, Some ctx_fin)"
    using flip_derives_state [OF a(1), where sha = toy_sha3 and MAXB = 4] b by blast
  have 2: "inner_keccak256_flip_ds toy_sha3 4 (Some ctx_full) = (OverflowError, Some ctx_full)"
    using flip_derives_state [OF a(2), where sha = toy_sha3 and MAXB = 4] d by blast
  have 3: "inner_keccak256_flip_ds toy_sha3 8 (Some ?e)
       = (0, Some (?e\<lparr>buffer := (buffer ?e)[buffer_len ?e := 0x1F],
                       buffer_len := buffer_len ?e + 1,
                       state := snd (toy_sha3 (take (buffer_len ?e) (buffer ?e) @ [0x1F])),
                       finalized := 1\<rparr>))"
    using flip_derives_state [OF a(3), where sha = toy_sha3 and MAXB = 8] c by blast
  have 4: "inner_keccak256_flip toy_digest (Some ctx_full)
       = (0, Some (ctx_full\<lparr>state := toy_digest (take (buffer_len ctx_full) (buffer ctx_full)),
            finalized := 1\<rparr>))"
    using flip_derives_state [OF a(2), where H = toy_digest and c = ctx_full] b by simp
  show ?thesis
    using a(2) b 1 2 3 [unfolded e] 4 [unfolded e] by (simp add: ctx_full_def)
qed

section \<open>What \<^verbatim>\<open>extract\<close> leaves alone\<close>

lemma extract_loop_frame:
  "\<exists>k. fst (extract_loop H c out offset len) = c\<lparr>counter := k\<rparr>"
proof (induction "len - offset" arbitrary: c out offset rule: less_induct)
  case less
  show ?case
  proof (cases "offset < len")
    case False
    then have "fst (extract_loop H c out offset len) = c\<lparr>counter := counter c\<rparr>"
      by (simp add: extract_loop_done)
    then show ?thesis ..
  next
    case True
    let ?c' = "c\<lparr>counter := counter c + 1\<rparr>"
    let ?out' = "memcpy out offset (H (state c @ counter_bytes (counter c))) (copy_len len offset)"
    have "len - (offset + copy_len len offset) < len - offset"
      using copy_len_cases [OF True] True by arith
    from less [OF this] obtain k where
      "fst (extract_loop H ?c' ?out' (offset + copy_len len offset) len) = ?c'\<lparr>counter := k\<rparr>"
      by blast
    then have "fst (extract_loop H c out offset len) = c\<lparr>counter := k\<rparr>"
      by (simp add: extract_loop_step [OF True])
    then show ?thesis ..
  qed
qed

lemma extract_loop_cached_frame:
  "\<exists>k B p l. fst (extract_loop_cached H c out offset len) =
     c\<lparr>counter := k, out_buffer := B, out_buffer_pos := p, out_buffer_len := l\<rparr>"
proof (induction "len - offset" arbitrary: c out offset rule: less_induct)
  case less
  show ?case
  proof (cases "offset < len")
    case False
    then have "fst (extract_loop_cached H c out offset len) =
       c\<lparr>counter := counter c, out_buffer := out_buffer c,
         out_buffer_pos := out_buffer_pos c, out_buffer_len := out_buffer_len c\<rparr>"
      by (simp add: extract_loop_cached_done)
    then show ?thesis by blast
  next
    case True
    let ?c' = "c\<lparr>out_buffer := H (state c @ counter_bytes (counter c)),
          out_buffer_len := 32, out_buffer_pos := copy_len len offset,
          counter := counter c + 1\<rparr>"
    let ?out' = "memcpy out offset (H (state c @ counter_bytes (counter c))) (copy_len len offset)"
    have "len - (offset + copy_len len offset) < len - offset"
      using copy_len_cases [OF True] True by arith
    from less [OF this] obtain k B p l where
      "fst (extract_loop_cached H ?c' ?out' (offset + copy_len len offset) len) =
         ?c'\<lparr>counter := k, out_buffer := B, out_buffer_pos := p, out_buffer_len := l\<rparr>"
      by blast
    then have "fst (extract_loop_cached H c out offset len) =
        c\<lparr>counter := k, out_buffer := B, out_buffer_pos := p, out_buffer_len := l\<rparr>"
      by (simp add: extract_loop_cached_step [OF True])
    then show ?thesis by blast
  qed
qed

text \<open>
  C9. A call of \<^verbatim>\<open>extract\<close> changes nothing of the context but the counter and, in the
  version with cache, the cached block, its cursor and its length: the context that
  comes out is the one that went in with those fields updated, so the derived state,
  the input buffer, the input length and the finalized flag are as before. On a
  finalized context the call succeeds (returns 0).
\<close>

theorem extract_frame:
  "(\<exists>k. fst (snd (inner_keccak256_extract H (Some c) (Some ob) n)) = Some (c\<lparr>counter := k\<rparr>))
   \<and> (\<exists>k B p l. fst (snd (inner_keccak256_extract_cached H (Some d) (Some ob) n)) =
         Some (d\<lparr>counter := k, out_buffer := B, out_buffer_pos := p, out_buffer_len := l\<rparr>))
   \<and> (finalized c \<noteq> 0 \<longrightarrow> fst (inner_keccak256_extract H (Some c) (Some ob) n) = 0)
   \<and> (finalized d \<noteq> 0 \<longrightarrow> fst (inner_keccak256_extract_cached H (Some d) (Some ob) n) = 0)"
proof (intro conjI)
  obtain k where k: "fst (extract_loop H c ob 0 n) = c\<lparr>counter := k\<rparr>"
    using extract_loop_frame by blast
  show "\<exists>k. fst (snd (inner_keccak256_extract H (Some c) (Some ob) n)) = Some (c\<lparr>counter := k\<rparr>)"
  proof (cases "finalized c = 0")
    case True
    then have "fst (snd (inner_keccak256_extract H (Some c) (Some ob) n)) =
        Some (c\<lparr>counter := counter c\<rparr>)"
      by (simp add: inner_keccak256_extract_def)
    then show ?thesis ..
  next
    case False
    then have "fst (snd (inner_keccak256_extract H (Some c) (Some ob) n)) = Some (c\<lparr>counter := k\<rparr>)"
      using k by (auto simp add: inner_keccak256_extract_def split: prod.splits)
    then show ?thesis ..
  qed
  show "\<exists>k B p l. fst (snd (inner_keccak256_extract_cached H (Some d) (Some ob) n)) =
         Some (d\<lparr>counter := k, out_buffer := B, out_buffer_pos := p, out_buffer_len := l\<rparr>)"
  proof -
    define a where "a = out_buffer_len d - out_buffer_pos d"
    define t where "t = (if n < a then n else a)"
    define ob1 where "ob1 = memcpy ob 0 (drop (out_buffer_pos d) (out_buffer d)) t"
    define d1 where "d1 = d\<lparr>out_buffer_pos := out_buffer_pos d + t\<rparr>"
    obtain k B p l where 1: "fst (extract_loop_cached H d1 ob1 t n) =
        d1\<lparr>counter := k, out_buffer := B, out_buffer_pos := p, out_buffer_len := l\<rparr>"
      using extract_loop_cached_frame by blast
    obtain k' B' p' l' where 2: "fst (extract_loop_cached H d ob 0 n) =
        d\<lparr>counter := k', out_buffer := B', out_buffer_pos := p', out_buffer_len := l'\<rparr>"
      using extract_loop_cached_frame by blast
    have same: "d = d\<lparr>counter := counter d, out_buffer := out_buffer d,
        out_buffer_pos := out_buffer_pos d, out_buffer_len := out_buffer_len d\<rparr>"
      by simp
    have adv: "d1 = d\<lparr>counter := counter d, out_buffer := out_buffer d,
        out_buffer_pos := out_buffer_pos d + t, out_buffer_len := out_buffer_len d\<rparr>"
      by (simp add: d1_def)
    consider "finalized d = 0"
      | "finalized d \<noteq> 0" "out_buffer_pos d < out_buffer_len d" "t = n"
      | "finalized d \<noteq> 0" "out_buffer_pos d < out_buffer_len d" "t \<noteq> n"
      | "finalized d \<noteq> 0" "\<not> out_buffer_pos d < out_buffer_len d"
      by blast
    then show ?thesis
    proof cases
      case 1
      then have "fst (snd (inner_keccak256_extract_cached H (Some d) (Some ob) n)) = Some d"
        by (simp add: inner_keccak256_extract_cached_def)
      with same show ?thesis by metis
    next
      case 2
      then have "fst (snd (inner_keccak256_extract_cached H (Some d) (Some ob) n)) = Some d1"
        by (simp add: inner_keccak256_extract_cached_def Let_def a_def [symmetric]
            t_def [symmetric] d1_def)
      with adv show ?thesis by metis
    next
      case 3
      then have "fst (snd (inner_keccak256_extract_cached H (Some d) (Some ob) n)) =
          Some (fst (extract_loop_cached H d1 ob1 t n))"
        by (auto simp add: inner_keccak256_extract_cached_def Let_def a_def [symmetric]
            t_def [symmetric] d1_def ob1_def split: prod.splits)
      with 1 have "fst (snd (inner_keccak256_extract_cached H (Some d) (Some ob) n)) =
          Some (d\<lparr>counter := k, out_buffer := B, out_buffer_pos := p, out_buffer_len := l\<rparr>)"
        by (simp add: d1_def)
      then show ?thesis by blast
    next
      case 4
      then have "fst (snd (inner_keccak256_extract_cached H (Some d) (Some ob) n)) =
          Some (fst (extract_loop_cached H d ob 0 n))"
        by (auto simp add: inner_keccak256_extract_cached_def split: prod.splits)
      with 2 show ?thesis by metis
    qed
  qed
  show "finalized c \<noteq> 0 \<longrightarrow> fst (inner_keccak256_extract H (Some c) (Some ob) n) = 0"
    by (simp add: inner_keccak256_extract_def split: prod.splits)
  show "finalized d \<noteq> 0 \<longrightarrow> fst (inner_keccak256_extract_cached H (Some d) (Some ob) n) = 0"
    by (simp add: inner_keccak256_extract_cached_def Let_def split: prod.splits)
qed

theorem extract_frame_witness:
  "finalized ctx_fin \<noteq> 0 \<and> finalized ctx_fin_cached \<noteq> 0
   \<and> fst (inner_keccak256_extract toy_digest (Some ctx_fin) (Some [9, 9]) 2) = 0
   \<and> fst (inner_keccak256_extract_cached toy_digest (Some ctx_fin_cached) (Some [9, 9]) 2) = 0
   \<and> (\<exists>k. fst (snd (inner_keccak256_extract toy_digest (Some ctx_fin) (Some [9, 9]) 2))
          = Some (ctx_fin\<lparr>counter := k\<rparr>))"
proof -
  have a: "finalized ctx_fin \<noteq> 0" "finalized ctx_fin_cached \<noteq> 0"
    by (simp_all add: ctx_fin_def ctx_fin_cached_def)
  show ?thesis
    using extract_frame [where H = toy_digest and c = ctx_fin and d = ctx_fin_cached
        and ob = "[9, 9]" and n = 2] a
    by blast
qed

section \<open>Whole sessions\<close>

lemma inject_core_plain:
  "snd (inner_keccak256_inject MAXB (Some d) (Some a)) = Some (inject_core MAXB d a)"
  by (simp add: inner_keccak256_inject_def inject_core_def)

lemma inject_core_cached:
  "snd (inner_keccak256_inject_cached MAXB (Some c) (Some a)) = Some (inject_core MAXB c a)"
  by (simp add: inner_keccak256_inject_cached_def inject_core_def)

lemma inject_all_plain:
  "inject_all MAXB (Some d) chunks = Some (foldl (inject_core MAXB) d chunks)"
  by (induction chunks arbitrary: d) (simp_all add: inject_core_plain)

lemma inject_all_cached:
  "inject_all_cached MAXB (Some c) chunks = Some (foldl (inject_core MAXB) c chunks)"
  by (induction chunks arbitrary: c) (simp_all add: inject_core_cached)

lemma inject_core_same:
  "same_core c d \<Longrightarrow> same_core (inject_core MAXB c a) (inject_core MAXB d a)"
  by (simp add: same_core_def inject_core_def)

lemma inject_core_keeps [simp]:
  "finalized (inject_core MAXB c a) = finalized c"
  "state (inject_core MAXB c a) = state c"
  "counter (inject_core MAXB c a) = counter c"
  by (simp_all add: inject_core_def)

lemma inject_core_cache [simp]:
  "out_buffer (inject_core MAXB c a) = out_buffer c"
  "out_buffer_pos (inject_core MAXB c a) = out_buffer_pos c"
  "out_buffer_len (inject_core MAXB c a) = out_buffer_len c"
  by (simp_all add: inject_core_def)

lemma foldl_inject_core_same:
  "same_core c d \<Longrightarrow>
     same_core (foldl (inject_core MAXB) c chunks) (foldl (inject_core MAXB) d chunks)"
  by (induction chunks arbitrary: c d) (simp_all add: inject_core_same)

lemma foldl_inject_core_keeps [simp]:
  "finalized (foldl (inject_core MAXB) c chunks) = finalized c"
  by (induction chunks arbitrary: c) simp_all

lemma foldl_inject_core_cache [simp]:
  "out_buffer (foldl (inject_core MAXB) c chunks) = out_buffer c"
  "out_buffer_pos (foldl (inject_core MAXB) c chunks) = out_buffer_pos c"
  "out_buffer_len (foldl (inject_core MAXB) c chunks) = out_buffer_len c"
  by (induction chunks arbitrary: c) simp_all

lemma init_fresh:
  "inner_keccak256_init MAXB (Some mem) = (0, Some (fresh_ctx MAXB))"
  by (simp add: inner_keccak256_init_def fresh_ctx_def)

lemma init_fresh_cached:
  "inner_keccak256_init_cached MAXB (Some mem) = (0, Some (fresh_ctx_cached MAXB (out_buffer mem)))"
  by (simp add: inner_keccak256_init_cached_def fresh_ctx_cached_def)

lemma session_plain:
  "prng_session H MAXB mem chunks ns = extract_calls H (Some (ready H MAXB chunks)) ns"
  by (simp add: prng_session_def init_fresh inject_all_plain inner_keccak256_flip_def
      ready_def Let_def fresh_ctx_def)

lemma session_cached:
  "prng_session_cached H MAXB mem chunks ns =
     extract_calls_cached H (Some (ready_cached H MAXB (out_buffer mem) chunks)) ns"
  by (simp add: prng_session_cached_def init_fresh_cached inject_all_cached
      inner_keccak256_flip_cached_def ready_cached_def Let_def fresh_ctx_cached_def)

lemma fresh_same: "same_core (fresh_ctx_cached MAXB ob) (fresh_ctx MAXB)"
  by (simp add: same_core_def fresh_ctx_def fresh_ctx_cached_def)

lemma ready_same: "same_core (ready_cached H MAXB ob chunks) (ready H MAXB chunks)"
  using foldl_inject_core_same [OF fresh_same]
  by (simp add: same_core_def ready_def ready_cached_def Let_def)

lemma foldl_inject_core_counter [simp]:
  "counter (foldl (inject_core MAXB) c chunks) = counter c"
  by (induction chunks arbitrary: c) simp_all

lemma ready_fields [simp]:
  "finalized (ready H MAXB chunks) = 1"
  "counter (ready H MAXB chunks) = 0"
  "finalized (ready_cached H MAXB ob chunks) = 1"
  "counter (ready_cached H MAXB ob chunks) = 0"
  "out_buffer_pos (ready_cached H MAXB ob chunks) = 0"
  "out_buffer_len (ready_cached H MAXB ob chunks) = 0"
  "out_buffer (ready_cached H MAXB ob chunks) = ob"
  by (simp_all add: ready_def ready_cached_def Let_def fresh_ctx_def fresh_ctx_cached_def)


lemma same_core_cache_overwritten:
  fixes c c' :: keccak256_prng_ctx_cached
  assumes "same_core c c'"
  shows "c\<lparr>out_buffer := B, out_buffer_len := l, out_buffer_pos := p\<rparr>
       = c'\<lparr>out_buffer := B, out_buffer_len := l, out_buffer_pos := p\<rparr>"
  using assms by (cases c, cases c') (simp add: same_core_def)

lemma same_core_via:
  "same_core c d \<Longrightarrow> same_core c' d \<Longrightarrow> same_core c c'"
  by (simp add: same_core_def)

lemma extract_call_cached_empty:
  assumes "out_buffer_len c \<le> out_buffer_pos c"
  shows "extract_call_cached H (Some c) n =
     (if finalized c = 0 then (- 2, Some c, replicate n 0)
      else if n = 0 then (0, Some c, [])
      else (case extract_loop_cached H
                  (c\<lparr>out_buffer := H (state c @ counter_bytes (counter c)),
                     out_buffer_len := 32, out_buffer_pos := copy_len n 0,
                     counter := counter c + 1\<rparr>)
                  (memcpy (replicate n 0) 0 (H (state c @ counter_bytes (counter c)))
                     (copy_len n 0))
                  (copy_len n 0) n of
              (c', ob') \<Rightarrow> (0, Some c', ob')))"
  using assms extract_loop_cached_step [of 0 n H c "replicate n 0"]
  by (auto simp: extract_call_cached_def inner_keccak256_extract_cached_def
      extract_loop_cached_done split: prod.splits)

lemma cached_calls_same_core:
  "same_core c c' \<Longrightarrow> out_buffer_len c \<le> out_buffer_pos c \<Longrightarrow>
   out_buffer_len c' \<le> out_buffer_pos c' \<Longrightarrow>
     extract_calls_cached H (Some c) ns = extract_calls_cached H (Some c') ns"
proof (induction ns arbitrary: c c')
  case Nil
  show ?case by simp
next
  case (Cons n ns)
  have core: "finalized c = finalized c'" "state c = state c'" "counter c = counter c'"
    using Cons.prems(1) by (simp_all add: same_core_def)
  show ?case
  proof (cases "finalized c = 0 \<or> n = 0")
    case True
    then show ?thesis
      using Cons.IH [OF Cons.prems] core
      by (auto simp: extract_call_cached_empty [OF Cons.prems(2)]
          extract_call_cached_empty [OF Cons.prems(3)])
  next
    case False
    have "c\<lparr>out_buffer := H (state c @ counter_bytes (counter c)),
             out_buffer_len := 32, out_buffer_pos := copy_len n 0\<rparr>
        = c'\<lparr>out_buffer := H (state c @ counter_bytes (counter c)),
             out_buffer_len := 32, out_buffer_pos := copy_len n 0\<rparr>"
      by (rule same_core_cache_overwritten [OF Cons.prems(1)])
    then have "c\<lparr>out_buffer := H (state c @ counter_bytes (counter c)),
             out_buffer_len := 32, out_buffer_pos := copy_len n 0, counter := counter c + 1\<rparr>
        = c'\<lparr>out_buffer := H (state c @ counter_bytes (counter c)),
             out_buffer_len := 32, out_buffer_pos := copy_len n 0, counter := counter c + 1\<rparr>"
      by simp
    then have "extract_call_cached H (Some c) n = extract_call_cached H (Some c') n"
      using False core
      by (simp add: extract_call_cached_empty [OF Cons.prems(2)]
          extract_call_cached_empty [OF Cons.prems(3)])
    then show ?thesis by simp
  qed
qed

section \<open>Determinism\<close>

text \<open>
  C4. The output of a whole session (\<^verbatim>\<open>init\<close>, the \<^verbatim>\<open>inject\<close> calls of the input
  sequence, \<^verbatim>\<open>flip\<close>, then \<^verbatim>\<open>extract\<close>) is a function of the input chunks and the
  requested lengths alone: two engines, whatever the memory they are allocated in held
  before \<^verbatim>\<open>init\<close>, return the same codes and the same bytes. This holds for one call
  \<^verbatim>\<open>extract(n)\<close> and for any sequence of calls, in the version without cache and in the
  version with it (where \<^verbatim>\<open>init\<close> leaves the old bytes of \<^verbatim>\<open>out_buffer\<close> in place).
\<close>

theorem session_deterministic:
  "prng_session H MAXB mem chunks ns = prng_session H MAXB mem' chunks ns
   \<and> prng_session_cached H MAXB m chunks ns = prng_session_cached H MAXB m' chunks ns"
proof
  show "prng_session H MAXB mem chunks ns = prng_session H MAXB mem' chunks ns"
    by (simp add: session_plain)
  have "same_core (ready_cached H MAXB (out_buffer m) chunks)
      (ready_cached H MAXB (out_buffer m') chunks)"
    by (rule same_core_via [OF ready_same ready_same])
  then show "prng_session_cached H MAXB m chunks ns = prng_session_cached H MAXB m' chunks ns"
    unfolding session_cached by (rule cached_calls_same_core) simp_all
qed

section \<open>Incremental absorption\<close>

lemma memcpy_twice:
  assumes "off \<le> length dst"
  shows "memcpy (memcpy dst off a (length a)) (off + length a) b (length b)
       = memcpy dst off (a @ b) (length a + length b)"
  using assms by (simp add: memcpy_def ac_simps)

lemma inject_core_append:
  assumes "finalized c = 0" "buffer_len c + length a + length b \<le> MAXB" "MAXB < 2 ^ 64"
    "buffer_len c \<le> length (buffer c)"
  shows "inject_core MAXB (inject_core MAXB c a) b = inject_core MAXB c (a @ b)"
proof -
  have 1: "size_add (buffer_len c) (length a) = buffer_len c + length a"
    and 2: "size_add (buffer_len c + length a) (length b) = buffer_len c + length a + length b"
    and 3: "size_add (buffer_len c) (length a + length b) = buffer_len c + length a + length b"
    using assms(2,3) by (simp_all add: size_add_small)
  show ?thesis
    using assms by (simp add: inject_core_def 1 2 3 memcpy_twice)
qed

lemma ready_append:
  assumes "length a + length b \<le> MAXB" "MAXB < 2 ^ 64"
  shows "ready H MAXB [a, b] = ready H MAXB [a @ b]"
    and "ready_cached H MAXB ob [a, b] = ready_cached H MAXB ob [a @ b]"
proof -
  have "inject_core MAXB (inject_core MAXB (fresh_ctx MAXB) a) b
      = inject_core MAXB (fresh_ctx MAXB) (a @ b)"
    using assms by (intro inject_core_append) (simp_all add: fresh_ctx_def)
  then show "ready H MAXB [a, b] = ready H MAXB [a @ b]"
    by (simp add: ready_def)
  have "inject_core MAXB (inject_core MAXB (fresh_ctx_cached MAXB ob) a) b
      = inject_core MAXB (fresh_ctx_cached MAXB ob) (a @ b)"
    using assms by (intro inject_core_append) (simp_all add: fresh_ctx_cached_def)
  then show "ready_cached H MAXB ob [a, b] = ready_cached H MAXB ob [a @ b]"
    by (simp add: ready_cached_def)
qed

text \<open>
  C5. For chunks \<open>a\<close> and \<open>b\<close> whose lengths add up to at most the capacity, a fresh engine
  fed \<open>a\<close> and then \<open>b\<close> in two \<^verbatim>\<open>inject\<close> calls and a second fresh engine fed \<open>a \<parallel> b\<close> in
  one call return, after \<^verbatim>\<open>flip\<close>, the same codes and bytes for every sequence of
  \<^verbatim>\<open>extract\<close> calls; the contexts are equal already after the injections, and every
  \<^verbatim>\<open>inject\<close> call has returned 0. (The capacity is an array size, below \<open>2 ^ 64\<close>.)
\<close>

theorem incremental_absorption:
  assumes "length a + length b \<le> MAXB" and "MAXB < 2 ^ 64"
  shows "prng_session H MAXB mem [a, b] ns = prng_session H MAXB mem' [a @ b] ns
   \<and> prng_session_cached H MAXB m [a, b] ns = prng_session_cached H MAXB m' [a @ b] ns
   \<and> inject_all MAXB (Some (fresh_ctx MAXB)) [a, b]
       = inject_all MAXB (Some (fresh_ctx MAXB)) [a @ b]
   \<and> fst (inner_keccak256_inject MAXB (Some (fresh_ctx MAXB)) (Some a)) = 0
   \<and> fst (inner_keccak256_inject MAXB
            (snd (inner_keccak256_inject MAXB (Some (fresh_ctx MAXB)) (Some a))) (Some b)) = 0
   \<and> fst (inner_keccak256_inject MAXB (Some (fresh_ctx MAXB)) (Some (a @ b))) = 0"
proof (intro conjI)
  show "prng_session H MAXB mem [a, b] ns = prng_session H MAXB mem' [a @ b] ns"
    by (simp only: session_plain ready_append(1) [OF assms])
  have "same_core (ready_cached H MAXB (out_buffer m) [a @ b])
      (ready_cached H MAXB (out_buffer m') [a @ b])"
    by (rule same_core_via [OF ready_same ready_same])
  then have "extract_calls_cached H (Some (ready_cached H MAXB (out_buffer m) [a @ b])) ns
      = extract_calls_cached H (Some (ready_cached H MAXB (out_buffer m') [a @ b])) ns"
    by (rule cached_calls_same_core) simp_all
  then show "prng_session_cached H MAXB m [a, b] ns
      = prng_session_cached H MAXB m' [a @ b] ns"
    by (simp only: session_cached ready_append(2) [OF assms])
  show "inject_all MAXB (Some (fresh_ctx MAXB)) [a, b]
       = inject_all MAXB (Some (fresh_ctx MAXB)) [a @ b]"
  proof -
    have "inject_core MAXB (inject_core MAXB (fresh_ctx MAXB) a) b
        = inject_core MAXB (fresh_ctx MAXB) (a @ b)"
      using assms by (intro inject_core_append) (simp_all add: fresh_ctx_def)
    then show ?thesis unfolding inject_all_plain by simp
  qed
  show "fst (inner_keccak256_inject MAXB (Some (fresh_ctx MAXB)) (Some a)) = 0"
    using assms by (simp add: inner_keccak256_inject_def fresh_ctx_def size_add_small)
  show "fst (inner_keccak256_inject MAXB (Some (fresh_ctx MAXB)) (Some (a @ b))) = 0"
    using assms by (simp add: inner_keccak256_inject_def fresh_ctx_def size_add_small)
  show "fst (inner_keccak256_inject MAXB
            (snd (inner_keccak256_inject MAXB (Some (fresh_ctx MAXB)) (Some a))) (Some b)) = 0"
    using assms by (simp add: inner_keccak256_inject_def fresh_ctx_def size_add_small)
qed

theorem incremental_absorption_witness:
  "length [1 :: byte] + length [2 :: byte] \<le> 4 \<and> (4 :: nat) < 2 ^ 64
   \<and> prng_session toy_digest 4 ctx_full [[1], [2]] [2] = [(0, [96, 96])]
   \<and> prng_session toy_digest 4 ctx_fin [[1] @ [2]] [2] = [(0, [96, 96])]"
proof -
  have a: "length [1 :: byte] + length [2 :: byte] \<le> 4" "(4 :: nat) < 2 ^ 64"
    by simp_all
  have b: "prng_session toy_digest 4 ctx_full [[1], [2]] [2] = [(0, [96, 96])]"
    by code_simp
  show ?thesis
    using incremental_absorption [OF a, where H = toy_digest and mem = ctx_full
        and mem' = ctx_fin and ns = "[2]"] a b
    by simp
qed

section \<open>The cache against the version without it\<close>

lemma cached_bytes_ready [simp]: "cached_bytes (ready_cached H MAXB ob chunks) = []"
  by (simp add: cached_bytes_def)

lemma after_extract_aligned:
  assumes H32: "\<forall>m. length (H m) = 32" and nil: "cached_bytes c = []" and dv: "32 dvd n"
  shows "cached_bytes (after_extract H c n) = []"
    and "counter (after_extract H c n) = counter c + of_nat (blocks_for n)"
proof -
  show "cached_bytes (after_extract H c n) = []"
  proof (cases "n = 0")
    case True
    then show ?thesis using nil cached_bytes_advance [of c 0] by (simp add: after_extract_def)
  next
    case False
    then have "0 < n" by simp
    have "n - 32 * (blocks_for n - 1) = 32"
      using blocks_for_dvd [OF dv] blocks_for_pos [OF \<open>0 < n\<close>]
      by (cases "blocks_for n") simp_all
    then show ?thesis
      using False nil H32 by (simp add: after_extract_def cached_bytes_refill [OF H32])
  qed
  show "counter (after_extract H c n) = counter c + of_nat (blocks_for n)"
    using nil by (cases "n = 0") (simp_all add: after_extract_def blocks_for_def)
qed

lemma calls_agree:
  assumes H32: "\<forall>m. length (H m) = 32"
  shows "same_core c d \<Longrightarrow> finalized d \<noteq> 0 \<Longrightarrow> cached_bytes c = [] \<Longrightarrow>
     out_buffer_len c \<le> length (out_buffer c) \<Longrightarrow> \<forall>n \<in> set (butlast ns). 32 dvd n \<Longrightarrow>
     extract_calls_cached H (Some c) ns = extract_calls H (Some d) ns"
proof (induction ns arbitrary: c d)
  case Nil
  show ?case by simp
next
  case (Cons n ns)
  have core: "state c = state d" "counter c = counter d" "finalized c = finalized d"
    "buffer c = buffer d" "buffer_len c = buffer_len d"
    using Cons.prems(1) by (simp_all add: same_core_def)
  have fin: "finalized c \<noteq> 0" using core Cons.prems(2) by simp
  have cc: "extract_call_cached H (Some c) n =
      (0, Some (after_extract H c n), stream_bytes H (state d) (counter d) n)"
    using Cons.prems(3) core
    by (simp add: extract_call_cached_result [OF H32 fin Cons.prems(4)] upcoming_beyond)
  have pc: "extract_call H (Some d) n =
      (0, Some (d\<lparr>counter := counter d + of_nat (blocks_for n)\<rparr>),
       stream_bytes H (state d) (counter d) n)"
    by (rule extract_call_result [OF H32 Cons.prems(2)])
  show ?case
  proof (cases "ns = []")
    case True
    then show ?thesis by (simp add: cc pc)
  next
    case False
    then have dv: "32 dvd n" and rest: "\<forall>n \<in> set (butlast ns). 32 dvd n"
      using Cons.prems(5) by simp_all
    have "same_core (after_extract H c n) (d\<lparr>counter := counter d + of_nat (blocks_for n)\<rparr>)"
      using core after_extract_aligned(2) [OF H32 Cons.prems(3) dv]
      by (simp add: same_core_def)
    moreover have "finalized (d\<lparr>counter := counter d + of_nat (blocks_for n)\<rparr>) \<noteq> 0"
      using Cons.prems(2) by simp
    moreover note after_extract_aligned(1) [OF H32 Cons.prems(3) dv]
      after_extract_ok [OF H32 Cons.prems(4)] rest
    ultimately have "extract_calls_cached H (Some (after_extract H c n)) ns =
        extract_calls H (Some (d\<lparr>counter := counter d + of_nat (blocks_for n)\<rparr>)) ns"
      by (rule Cons.IH)
    then show ?thesis by (simp add: cc pc)
  qed
qed

lemma cached_calls_concat:
  assumes H32: "\<forall>m. length (H m) = 32"
  shows "finalized c \<noteq> 0 \<Longrightarrow> out_buffer_len c \<le> length (out_buffer c) \<Longrightarrow>
     concat (map snd (extract_calls_cached H (Some c) ns)) = upcoming H c (sum_list ns)"
proof (induction ns arbitrary: c)
  case Nil
  show ?case by (simp add: upcoming_def)
next
  case (Cons n ns)
  have "concat (map snd (extract_calls_cached H (Some (after_extract H c n)) ns))
      = upcoming H (after_extract H c n) (sum_list ns)"
    using Cons.prems after_extract_ok [OF H32 Cons.prems(2)] by (intro Cons.IH) simp_all
  then show ?case
    by (simp add: extract_call_cached_result [OF H32 Cons.prems] upcoming_split [OF H32])
qed

text \<open>
  C2 (as amended). For every input sequence, the version with the output cache returns
  the same codes and bytes, call by call, as the version without it whenever every
  \<^verbatim>\<open>extract\<close> call but the last asks for a multiple of 32 bytes (so, in particular, for
  a single call of any length). For an arbitrary sequence of calls, what the version
  with cache returns in all is what the version without cache returns for one call of
  the total length.
\<close>

theorem cache_transparent_on_block_calls:
  assumes "\<forall>m. length (H m) = KECCAK256_OUTPUT"
  shows "((\<forall>n \<in> set (butlast ns). 32 dvd n) \<longrightarrow>
           prng_session_cached H MAXB m chunks ns = prng_session H MAXB mem chunks ns)
       \<and> concat (map snd (prng_session_cached H MAXB m chunks ks))
           = concat (map snd (prng_session H MAXB mem chunks [sum_list ks]))"
proof
  have H32: "\<forall>m. length (H m) = 32" using assms(1) by (simp add: KECCAK256_OUTPUT_def)
  show "(\<forall>n \<in> set (butlast ns). 32 dvd n) \<longrightarrow>
           prng_session_cached H MAXB m chunks ns = prng_session H MAXB mem chunks ns"
    unfolding session_cached session_plain
    using ready_same by (intro impI calls_agree [OF H32]) simp_all
  have "state (ready_cached H MAXB (out_buffer m) chunks) = state (ready H MAXB chunks)"
    using ready_same [of H MAXB "out_buffer m" chunks] by (simp add: same_core_def)
  then show "concat (map snd (prng_session_cached H MAXB m chunks ks))
           = concat (map snd (prng_session H MAXB mem chunks [sum_list ks]))"
    unfolding session_cached session_plain
    by (simp add: cached_calls_concat [OF H32] extract_call_result [OF H32] upcoming_beyond)
qed

theorem cache_transparent_on_block_calls_witness:
  "(\<forall>m. length (toy_digest m) = KECCAK256_OUTPUT) \<and> butlast [32, 1 :: nat] = [32]
   \<and> prng_session_cached toy_digest 4 ctx_fin_cached [[1]] [32, 1]
       = prng_session toy_digest 4 ctx_full [[1]] [32, 1]
   \<and> prng_session toy_digest 4 ctx_full [[1]] [32, 1] = [(0, replicate 32 32), (0, [33])]
   \<and> concat (map snd (prng_session_cached toy_digest 4 ctx_fin_cached [[1]] [1, 1]))
       = concat (map snd (prng_session toy_digest 4 ctx_full [[1]] [sum_list [1, 1]]))"
proof -
  have a: "\<forall>n \<in> set (butlast [32, 1 :: nat]). 32 dvd n"
    by simp
  have b: "prng_session toy_digest 4 ctx_full [[1]] [32, 1] = [(0, replicate 32 32), (0, [33])]"
    by code_simp
  show ?thesis
    using cache_transparent_on_block_calls [OF toy_digest_length, where ns = "[32, 1]"
        and MAXB = 4 and m = ctx_fin_cached and mem = ctx_full and chunks = "[[1]]"
        and ks = "[1, 1]"] toy_digest_length a b
    by simp
qed

text \<open>
  One input chunk, then two calls of one byte each, with the stand-in hash: the version
  with cache hands out bytes 0 and 1 of block 0, the version without cache byte 0 of
  block 0 and byte 0 of block 1.
\<close>

theorem cache_transparent_counterexample:
  "prng_session_cached toy_digest 4 ctx_fin_cached [[1]] [1, 1] = [(0, [32]), (0, [32])]
   \<and> prng_session toy_digest 4 ctx_full [[1]] [1, 1] = [(0, [32]), (0, [33])]"
  by code_simp

end
